theory Spec2Isabelle
  imports Main
begin

section \<open>The container codec of tachibk-converter.py\<close>

text \<open>
  The script converts a backup between its binary form and a JSON mirror. This part of
  the development embeds the functions \<^verbatim>\<open>read_backup\<close>, \<^verbatim>\<open>parse_backup\<close>,
  \<^verbatim>\<open>write_json\<close>, \<^verbatim>\<open>parse_json\<close>, \<^verbatim>\<open>write_backup\<close> and the
  \<^verbatim>\<open>__main__\<close> block. Text and file contents are lists of characters. The
  operating system resolves a path to the file it denotes (\<open>resolve\<close>); several
  spellings of a path can denote one file. The file system is a map from files to
  contents, the standard output is a list of events, and every call that hands a path to
  the operating system is logged with the path as it was given and its mode.
  An exception that leaves the program is the result \<open>Raise\<close>, a call of
  \<^verbatim>\<open>exit(n)\<close> is the result \<open>Exit n\<close>. The \<^verbatim>\<open>__main__\<close> block runs once the
  generated module \<^verbatim>\<open>schema_pb2\<close> has been imported; \<open>main\<close> starts there. Writing
  a file always succeeds, and reading fails exactly when the file does not exist.
\<close>

subsection \<open>Python values, exceptions and the world\<close>

datatype exn = ValueError | OSError | TypeError | ParseError | DecodeError | EncodeError

datatype 'a res = Return 'a | Exit nat | Raise exn

datatype out = Print string | PrintHelp

record world =
  resolve :: "string \<Rightarrow> string"
  files :: "string \<rightharpoonup> string"
  stdout :: "out list"
  opens :: "(string \<times> string) list"

text \<open>
  The parsed command line: \<open>args_input\<close> is \<^verbatim>\<open>str(args.input)\<close> and \<open>args_output\<close> is
  \<^verbatim>\<open>str(args.output)\<close>, whose default is \<^verbatim>\<open>output.json\<close>.
\<close>

record args =
  args_input :: string
  args_output :: string

text \<open>
  The collaborators the script imports: the gzip module and the serializer generated from
  the schema. Each may raise; \<open>Inl e\<close> is the exception \<open>e\<close>.
\<close>

record 'm ext =
  gzip_compress :: "string \<Rightarrow> string"
  gzip_decompress :: "string \<Rightarrow> exn + string"
  ParseFromString :: "string \<Rightarrow> exn + 'm"
  MessageToJson :: "'m \<Rightarrow> string"
  Parse :: "string \<Rightarrow> exn + 'm"
  SerializeToString :: "'m \<Rightarrow> exn + string"

definition endswith :: "string \<Rightarrow> string \<Rightarrow> bool" where
  "endswith s suf = (length suf \<le> length s \<and> drop (length s - length suf) s = suf)"

definition startswith :: "string \<Rightarrow> string \<Rightarrow> bool" where
  "startswith s pre = (take (length pre) s = pre)"

definition and_then ::
  "'a res \<times> world \<Rightarrow> ('a \<Rightarrow> world \<Rightarrow> 'b res \<times> world) \<Rightarrow> 'b res \<times> world" where
  "and_then r f =
     (case r of
        (Return a, w) \<Rightarrow> f a w
      | (Exit n, w) \<Rightarrow> (Exit n, w)
      | (Raise e, w) \<Rightarrow> (Raise e, w))"

definition print :: "string \<Rightarrow> world \<Rightarrow> world" where
  "print line w = w\<lparr>stdout := stdout w @ [Print line]\<rparr>"

definition print_help :: "world \<Rightarrow> world" where
  "print_help w = w\<lparr>stdout := stdout w @ [PrintHelp]\<rparr>"

subsection \<open>The builtin open and gzip.open\<close>

text \<open>
  The builtin \<^verbatim>\<open>open\<close> checks the mode string before it touches the file: every
  character is one of \<^verbatim>\<open>xrwa+tb\<close>, none is repeated, \<^verbatim>\<open>t\<close> and \<^verbatim>\<open>b\<close>
  exclude each other, and exactly one of \<^verbatim>\<open>x\<close>, \<^verbatim>\<open>r\<close>, \<^verbatim>\<open>w\<close>,
  \<^verbatim>\<open>a\<close> is present. Any other mode raises ValueError.
\<close>

definition mode_valid :: "string \<Rightarrow> bool" where
  "mode_valid m =
     (list_all (\<lambda>c. c \<in> set ''xrwa+tb'') m \<and> distinct m
      \<and> (if CHR ''t'' \<in> set m then CHR ''b'' \<notin> set m else True)
      \<and> length (filter (\<lambda>c. c \<in> set ''xrwa'') m) = 1)"

definition log_open :: "string \<Rightarrow> string \<Rightarrow> world \<Rightarrow> world" where
  "log_open path mode w = w\<lparr>opens := opens w @ [(path, mode)]\<rparr>"

text \<open>\<^verbatim>\<open>with open(path, mode) as file: file.read()\<close>; a missing file raises OSError.\<close>

definition open_read :: "string \<Rightarrow> string \<Rightarrow> world \<Rightarrow> string res \<times> world" where
  "open_read path mode w =
     (if \<not> mode_valid mode then (Raise ValueError, w)
      else case files w (resolve w path) of
             None \<Rightarrow> (Raise OSError, log_open path mode w)
           | Some content \<Rightarrow> (Return content, log_open path mode w))"

text \<open>\<^verbatim>\<open>with open(path, mode) as file: file.write(content)\<close>; the file is created or replaced.\<close>

definition open_write :: "string \<Rightarrow> string \<Rightarrow> string \<Rightarrow> world \<Rightarrow> unit res \<times> world" where
  "open_write path mode content w =
     (if \<not> mode_valid mode then (Raise ValueError, w)
      else (Return (),
            (log_open path mode w)\<lparr>files := (files w)(resolve w path \<mapsto> content)\<rparr>))"

text \<open>\<^verbatim>\<open>with gzip.open(path, 'rb') as zip: zip.read()\<close>\<close>

definition gzip_open_read :: "'m ext \<Rightarrow> string \<Rightarrow> world \<Rightarrow> string res \<times> world" where
  "gzip_open_read x path w =
     (case files w (resolve w path) of
        None \<Rightarrow> (Raise OSError, log_open path ''rb'' w)
      | Some content \<Rightarrow>
          (case gzip_decompress x content of
             Inl e \<Rightarrow> (Raise e, log_open path ''rb'' w)
           | Inr data \<Rightarrow> (Return data, log_open path ''rb'' w)))"

text \<open>\<^verbatim>\<open>with gzip.open(path, 'wb') as zip: zip.write(message)\<close>\<close>

definition gzip_open_write :: "'m ext \<Rightarrow> string \<Rightarrow> string \<Rightarrow> world \<Rightarrow> unit res \<times> world" where
  "gzip_open_write x path message w =
     (Return (),
      (log_open path ''wb'' w)\<lparr>files := (files w)(resolve w path \<mapsto> gzip_compress x message)\<rparr>)"

subsection \<open>The functions of the script\<close>

definition read_backup :: "'m ext \<Rightarrow> string \<Rightarrow> world \<Rightarrow> string res \<times> world" where
  "read_backup x inp w =
     (if endswith inp ''.tachibk'' \<or> endswith inp ''.proto.gz'' then
        and_then (gzip_open_read x inp w) (\<lambda>backup_data w1.
          and_then (open_write ''extracted_tachibk'' ''wb'' backup_data w1) (\<lambda>_ w2.
            (Return backup_data, w2)))
      else
        (case open_read ''extracted_tachibk'' ''rb'' w of
           (Raise OSError, w1) \<Rightarrow>
             (Exit 1, print_help (print ''ERROR! No Backup to process.'' w1))
         | r \<Rightarrow> r))"

definition parse_backup :: "'m ext \<Rightarrow> string \<Rightarrow> world \<Rightarrow> 'm res \<times> world" where
  "parse_backup x backup_data w =
     (case ParseFromString x backup_data of
        Inl e \<Rightarrow> (Raise e, w)
      | Inr message \<Rightarrow> (Return message, w))"

definition write_json :: "'m ext \<Rightarrow> args \<Rightarrow> 'm \<Rightarrow> world \<Rightarrow> unit res \<times> world" where
  "write_json x a message w =
     and_then (open_write (args_output a) ''wt'' (MessageToJson x message) w) (\<lambda>_ w1.
       (Return (), print (''Backup decoded to '' @ [CHR 0x22] @ args_output a @ [CHR 0x22]) w1))"

definition parse_json :: "'m ext \<Rightarrow> string \<Rightarrow> world \<Rightarrow> string res \<times> world" where
  "parse_json x inp w =
     (case open_read inp ''b'' w of
        (Raise OSError, w1) \<Rightarrow> (Exit 1, print ''ERROR! Could not read the JSON file.'' w1)
      | (Return json_string, w1) \<Rightarrow>
          (case Parse x json_string of
             Inl ParseError \<Rightarrow> (Exit 1, print ''The input JSON file is invalid.'' w1)
           | Inl e \<Rightarrow> (Raise e, w1)
           | Inr message \<Rightarrow>
               (case SerializeToString x message of
                  Inl e \<Rightarrow> (Raise e, w1)
                | Inr data \<Rightarrow> (Return data, w1)))
      | r \<Rightarrow> r)"

definition write_backup :: "'m ext \<Rightarrow> args \<Rightarrow> string \<Rightarrow> world \<Rightarrow> unit res \<times> world" where
  "write_backup x a message w =
     (let out_path = (if args_output a = ''output.json'' then ''encoded_backup.tachibk'' else args_output a)
      in and_then
           (if endswith out_path ''.proto.gz'' \<or> endswith out_path ''.tachibk'' then
              and_then (gzip_open_write x out_path message w) (\<lambda>_ w1. (Return True, w1))
            else
              and_then (open_write out_path ''wb'' message w) (\<lambda>_ w1. (Return False, w1)))
           (\<lambda>compression w1.
              (Return (),
               print ((if compression then ''C'' else ''Unc'')
                        @ ''ompressed backup written to '' @ out_path) w1)))"

definition main :: "'m ext \<Rightarrow> args \<Rightarrow> world \<Rightarrow> unit res \<times> world" where
  "main x a w =
     (let inp = args_input a
      in if endswith inp ''.json'' then
           and_then (parse_json x inp w) (\<lambda>message w1. write_backup x a message w1)
         else
           and_then (read_backup x inp w) (\<lambda>backup_data w1.
             and_then (parse_backup x backup_data w1) (\<lambda>message w2.
               write_json x a message w2)))"

text \<open>A small stand-in for the collaborators, used to run the functions on concrete inputs.\<close>

definition demo_ext :: "string ext" where
  "demo_ext =
     \<lparr>gzip_compress = (\<lambda>b. ''GZ'' @ b),
      gzip_decompress = (\<lambda>c. if take 2 c = ''GZ'' then Inr (drop 2 c) else Inl OSError),
      ParseFromString = (\<lambda>b. Inr b),
      MessageToJson = (\<lambda>m. ''{'' @ m @ ''}''),
      Parse = (\<lambda>t. if take 1 t = ''{'' \<and> endswith t ''}''
                    then Inr (take (length t - 2) (drop 1 t)) else Inl ParseError),
      SerializeToString = (\<lambda>m. Inr m)\<rparr>"

text \<open>
  Path resolution in a directory tree without symbolic links in which every directory that a
  path names exists: empty segments and \<^verbatim>\<open>.\<close> are dropped, and a segment followed by
  \<^verbatim>\<open>..\<close> cancels. The concrete worlds resolve paths this way.
\<close>

fun split_path :: "string \<Rightarrow> string list" where
  "split_path [] = [[]]"
| "split_path (c # cs) =
     (if c = CHR ''/'' then [] # split_path cs
      else (case split_path cs of [] \<Rightarrow> [[c]] | seg # segs \<Rightarrow> (c # seg) # segs))"

fun collapse :: "string list \<Rightarrow> string list \<Rightarrow> string list" where
  "collapse acc [] = rev acc"
| "collapse acc (seg # segs) =
     (if seg = [] \<or> seg = ''.'' then collapse acc segs
      else if seg = ''..'' then
        (case acc of
           [] \<Rightarrow> collapse [seg] segs
         | d # ds \<Rightarrow> if d = ''..'' then collapse (seg # acc) segs else collapse ds segs)
      else collapse (seg # acc) segs)"

fun join_path :: "string list \<Rightarrow> string" where
  "join_path [] = []"
| "join_path [seg] = seg"
| "join_path (seg # more_segs) = seg @ ''/'' @ join_path more_segs"

definition lexical_resolve :: "string \<Rightarrow> string" where
  "lexical_resolve path =
     (if take 1 path = ''/'' then ''/'' else []) @ join_path (collapse [] (split_path path))"

definition demo_world :: "(string \<times> string) list \<Rightarrow> world" where
  "demo_world fs = \<lparr>resolve = lexical_resolve, files = map_of fs, stdout = [], opens = []\<rparr>"

section \<open>Schema derivation: the field pattern and parse_model\<close>

text \<open>
  \<^verbatim>\<open>parse_model\<close> scans the body of each class with the regular expression
  \<^verbatim>\<open>PROTONUMBER_RE\<close> under \<^verbatim>\<open>re.MULTILINE\<close> and formats one schema line per
  match. The pattern is embedded as a value of the datatype \<open>regex\<close> and run by a
  backtracking matcher that returns every way to match, in the order in which Python's
  engine tries them; a match is the first of them. A character is a code point below 256;
  the classes \<^verbatim>\<open>\s\<close>, \<^verbatim>\<open>\w\<close> and \<^verbatim>\<open>\d\<close> are those of Python's \<^verbatim>\<open>str\<close>
  patterns on that range.
\<close>

subsection \<open>Character classes\<close>

datatype cclass = Space | Word | Digit

definition is_space :: "char \<Rightarrow> bool" where
  "is_space ch = (let n = (of_char ch :: nat)
                  in (9 \<le> n \<and> n \<le> 13) \<or> (28 \<le> n \<and> n \<le> 32) \<or> n = 133 \<or> n = 160)"

definition is_digit :: "char \<Rightarrow> bool" where
  "is_digit ch = (let n = (of_char ch :: nat) in 48 \<le> n \<and> n \<le> 57)"

definition is_word :: "char \<Rightarrow> bool" where
  "is_word ch = (let n = (of_char ch :: nat)
                 in (48 \<le> n \<and> n \<le> 57) \<or> (65 \<le> n \<and> n \<le> 90) \<or> n = 95 \<or> (97 \<le> n \<and> n \<le> 122)
                    \<or> n = 170 \<or> n = 178 \<or> n = 179 \<or> n = 181 \<or> n = 185 \<or> n = 186
                    \<or> (188 \<le> n \<and> n \<le> 190) \<or> (192 \<le> n \<and> n \<le> 214)
                    \<or> (216 \<le> n \<and> n \<le> 246) \<or> (248 \<le> n \<and> n \<le> 255))"

fun in_class :: "cclass \<Rightarrow> char \<Rightarrow> bool" where
  "in_class Space ch = is_space ch"
| "in_class Word ch = is_word ch"
| "in_class Digit ch = is_digit ch"

subsection \<open>Patterns and the backtracking matcher\<close>

text \<open>
  The groups of the pattern: the five named ones and the unnamed sixth. \<open>Bol\<close> is
  \<^verbatim>\<open>^\<close> (the start of the text or the position after a newline), \<open>Star\<close> and
  \<open>Plus\<close> are the greedy \<^verbatim>\<open>*\<close> and \<^verbatim>\<open>+\<close> on a class, \<open>Opt\<close> the greedy
  \<^verbatim>\<open>?\<close>, \<open>NotAhead\<close> the negative lookahead \<^verbatim>\<open>(?!...)\<close>. A state is a
  position in the text and the spans of the groups closed so far.
\<close>

datatype group = G_number | G_name | G_list | G_type | G_optional | G_6

datatype regex =
    Lit string
  | Bol
  | Chars string
  | Star cclass
  | Plus cclass
  | Opt regex
  | Seq regex regex
  | Alt regex regex
  | Group group regex
  | NotAhead regex

type_synonym caps = "group \<Rightarrow> (nat \<times> nat) option"

definition run_of :: "cclass \<Rightarrow> string \<Rightarrow> nat \<Rightarrow> nat" where
  "run_of k s i = length (takeWhile (in_class k) (drop i s))"

fun run :: "string \<Rightarrow> regex \<Rightarrow> nat \<times> caps \<Rightarrow> (nat \<times> caps) list" where
  "run s (Lit l) (i, c) = (if take (length l) (drop i s) = l then [(i + length l, c)] else [])"
| "run s Bol (i, c) = (if i = 0 \<or> take 1 (drop (i - 1) s) = [CHR 0x0A] then [(i, c)] else [])"
| "run s (Chars cs) (i, c) = (if i < length s \<and> s ! i \<in> set cs then [(i + 1, c)] else [])"
| "run s (Star k) (i, c) = map (\<lambda>n. (i + n, c)) (rev [0 ..< Suc (run_of k s i)])"
| "run s (Plus k) (i, c) = map (\<lambda>n. (i + n, c)) (rev [1 ..< Suc (run_of k s i)])"
| "run s (Opt r) st = run s r st @ [st]"
| "run s (Seq r1 r2) st = concat (map (run s r2) (run s r1 st))"
| "run s (Alt r1 r2) st = run s r1 st @ run s r2 st"
| "run s (Group g r) (i, c) = map (\<lambda>(j, c'). (j, c'(g := Some (i, j)))) (run s r (i, c))"
| "run s (NotAhead r) st = (if run s r st = [] then [st] else [])"

subsection \<open>PROTONUMBER_RE\<close>

text \<open>
  \<^verbatim>\<open>(?:^\s*(?!\/\/\s*)@ProtoNumber\((?P<number>\d+)\)\s*|data class \w+\(|^)\<close>
  is the alternation of \<open>annotation\<close>, \<open>class_head\<close> and \<open>Bol\<close>;
  \<^verbatim>\<open>va[rl]\s+(?P<name>\w+):\s+\<close> opens \<open>var_decl\<close>, followed by
  \<^verbatim>\<open>(?:(?:(?:List|Set)<(?P<list>\w+)>)|(?P<type>\w+))\<close> (\<open>type_pattern\<close>) and
  \<^verbatim>\<open>(?P<optional>\?|(:?\s+=))?\<close> (\<open>optional_pattern\<close>).
\<close>

definition annotation :: regex where
  "annotation =
     Seq Bol (Seq (Star Space) (Seq (NotAhead (Seq (Lit ''//'') (Star Space)))
       (Seq (Lit ''@ProtoNumber('') (Seq (Group G_number (Plus Digit))
         (Seq (Lit '')'') (Star Space))))))"

definition class_head :: regex where
  "class_head = Seq (Lit ''data class '') (Seq (Plus Word) (Lit ''(''))"

definition type_pattern :: regex where
  "type_pattern =
     Alt (Seq (Alt (Lit ''List'') (Lit ''Set''))
            (Seq (Lit ''<'') (Seq (Group G_list (Plus Word)) (Lit ''>''))))
         (Group G_type (Plus Word))"

definition optional_pattern :: regex where
  "optional_pattern =
     Opt (Group G_optional
            (Alt (Lit ''?'')
                 (Group G_6 (Seq (Opt (Lit '':'')) (Seq (Plus Space) (Lit ''=''))))))"

definition var_decl :: regex where
  "var_decl =
     Seq (Lit ''va'') (Seq (Chars ''rl'') (Seq (Plus Space) (Seq (Group G_name (Plus Word))
       (Seq (Lit '':'') (Seq (Plus Space) (Seq type_pattern optional_pattern))))))"

definition PROTONUMBER_RE :: regex where
  "PROTONUMBER_RE = Seq (Alt annotation (Alt class_head Bol)) var_decl"

subsection \<open>Match objects and re.finditer\<close>

text \<open>
  \<open>match_at\<close> is the match that starts at a position, \<open>finditer_from\<close> the scan
  of \<^verbatim>\<open>re.finditer\<close>: after a match the search resumes at its end. (A match of
  \<open>PROTONUMBER_RE\<close> is never empty, so the branch for an empty match is not taken.)
  \<open>group_text\<close> is \<^verbatim>\<open>field.group(g)\<close>, \<open>None\<close> when the group took no part.
\<close>

record rmatch =
  m_start :: nat
  m_end :: nat
  m_caps :: caps

definition match_at :: "regex \<Rightarrow> string \<Rightarrow> nat \<Rightarrow> rmatch option" where
  "match_at r s i =
     (case run s r (i, \<lambda>g. None) of
        [] \<Rightarrow> None
      | (j, c) # rest \<Rightarrow> Some \<lparr>m_start = i, m_end = j, m_caps = c\<rparr>)"

function finditer_from :: "regex \<Rightarrow> string \<Rightarrow> nat \<Rightarrow> rmatch list" where
  "finditer_from r s i =
     (if length s < i then []
      else case match_at r s i of
             None \<Rightarrow> finditer_from r s (Suc i)
           | Some m \<Rightarrow> m # finditer_from r s (if m_end m \<le> i then Suc i else m_end m))"
  by pat_completeness auto
termination
  by (relation "measure (\<lambda>(r, s, i). Suc (length s) - i)") auto

definition finditer :: "regex \<Rightarrow> string \<Rightarrow> rmatch list" where
  "finditer r s = finditer_from r s 0"

definition group_text :: "string \<Rightarrow> rmatch \<Rightarrow> group \<Rightarrow> string option" where
  "group_text s m g =
     (case m_caps m g of None \<Rightarrow> None | Some (a, b) \<Rightarrow> Some (take (b - a) (drop a s)))"

subsection \<open>The arguments of the format call\<close>

text \<open>
  \<open>dict_get\<close> is \<^verbatim>\<open>dict.get(key, default)\<close> on values that may be \<^verbatim>\<open>None\<close>
  (\<^verbatim>\<open>None\<close> is no key of \<open>DATA_TYPES\<close>); \<open>truthy\<close> and \<open>py_or\<close> are Python's
  truth test and \<^verbatim>\<open>or\<close> on such values, \<open>py_str\<close> is how \<^verbatim>\<open>str.format\<close>
  renders them. \<open>py_int\<close> is \<^verbatim>\<open>int(t)\<close> on the text of group \<^verbatim>\<open>number\<close>, a
  run of decimal digits; \<open>str_of_nat\<close> renders a number in decimal.
\<close>

definition DATA_TYPES :: "(string \<times> string) list" where
  "DATA_TYPES =
     [(''String'', ''string''),
      (''Int'', ''int32''),
      (''Long'', ''int64''),
      (''Boolean'', ''bool''),
      (''Float'', ''float''),
      (''PreferenceValue'', ''bytes'')]"

definition dict_get ::
  "(string \<times> string) list \<Rightarrow> string option \<Rightarrow> string option \<Rightarrow> string option" where
  "dict_get d key dflt =
     (case key of
        None \<Rightarrow> dflt
      | Some k \<Rightarrow> (case map_of d k of None \<Rightarrow> dflt | Some v \<Rightarrow> Some v))"

definition truthy :: "string option \<Rightarrow> bool" where
  "truthy v = (case v of None \<Rightarrow> False | Some t \<Rightarrow> t \<noteq> [])"

definition py_or :: "string option \<Rightarrow> string option \<Rightarrow> string option" where
  "py_or a b = (if truthy a then a else b)"

definition py_str :: "string option \<Rightarrow> string" where
  "py_str v = (case v of None \<Rightarrow> ''None'' | Some t \<Rightarrow> t)"

definition digit_char :: "nat \<Rightarrow> char" where
  "digit_char d = char_of (48 + d)"

fun str_of_nat :: "nat \<Rightarrow> string" where
  "str_of_nat n = (if n < 10 then [digit_char n] else str_of_nat (n div 10) @ [digit_char (n mod 10)])"

definition py_int :: "string \<Rightarrow> exn + nat" where
  "py_int t =
     (if t \<noteq> [] \<and> list_all is_digit t
      then Inr (foldl (\<lambda>n ch. 10 * n + (of_char ch - 48)) 0 t)
      else Inl ValueError)"

text \<open>
  The keyword arguments \<^verbatim>\<open>repeated\<close>, \<^verbatim>\<open>type\<close> and \<^verbatim>\<open>number\<close> of the format
  call of lines 81 to 98. The conditional expression of \<^verbatim>\<open>number\<close> parses as
  \<^verbatim>\<open>(group or 1) if not Broken else int(group) + 1\<close>, and \<^verbatim>\<open>int(None)\<close> raises
  TypeError.
\<close>

definition repeated_arg :: "string \<Rightarrow> rmatch \<Rightarrow> string" where
  "repeated_arg defs field =
     (if truthy (group_text defs field G_list) then ''repeated''
      else if truthy (group_text defs field G_optional) then ''optional''
      else ''required'')"

definition type_arg :: "string \<Rightarrow> rmatch \<Rightarrow> string option" where
  "type_arg defs field =
     dict_get DATA_TYPES (group_text defs field G_type)
       (dict_get DATA_TYPES (group_text defs field G_list)
          (py_or (group_text defs field G_list) (group_text defs field G_type)))"

definition number_arg :: "string \<Rightarrow> string \<Rightarrow> rmatch \<Rightarrow> exn + string" where
  "number_arg name defs field =
     (if \<not> startswith name ''Broken'' then
        Inr (if truthy (group_text defs field G_number)
             then py_str (group_text defs field G_number) else ''1'')
      else
        (case group_text defs field G_number of
           None \<Rightarrow> Inl TypeError
         | Some t \<Rightarrow> (case py_int t of Inl e \<Rightarrow> Inl e | Inr n \<Rightarrow> Inr (str_of_nat (n + 1)))))"

definition format_field :: "string \<Rightarrow> string \<Rightarrow> rmatch \<Rightarrow> exn + string" where
  "format_field name defs field =
     (case number_arg name defs field of
        Inl e \<Rightarrow> Inl e
      | Inr number \<Rightarrow>
          Inr (''  '' @ repeated_arg defs field @ '' '' @ py_str (type_arg defs field) @ '' ''
                 @ py_str (group_text defs field G_name) @ '' = '' @ number @ '';''))"

text \<open>
  The two loops of \<^verbatim>\<open>parse_model\<close>. The text of the model file and the scan with
  \<^verbatim>\<open>CLASS_RE\<close> are outside the embedding: \<open>parse_model\<close> takes the list of the
  class matches, each as its groups \<^verbatim>\<open>name\<close> and \<^verbatim>\<open>defs\<close>.
\<close>

fun format_fields :: "string \<Rightarrow> string \<Rightarrow> rmatch list \<Rightarrow> exn + string list" where
  "format_fields name defs [] = Inr []"
| "format_fields name defs (field # rest) =
     (case format_field name defs field of
        Inl e \<Rightarrow> Inl e
      | Inr line \<Rightarrow>
          (case format_fields name defs rest of
             Inl e \<Rightarrow> Inl e
           | Inr lines \<Rightarrow> Inr (line # lines)))"

fun parse_model :: "(string \<times> string) list \<Rightarrow> exn + string list" where
  "parse_model [] = Inr []"
| "parse_model ((name, defs) # classes) =
     (case format_fields name defs (finditer PROTONUMBER_RE defs) of
        Inl e \<Rightarrow> Inl e
      | Inr lines \<Rightarrow>
          (case parse_model classes of
             Inl e \<Rightarrow> Inl e
           | Inr message \<Rightarrow>
               Inr ([''message '' @ name @ '' {''] @ lines @ [''}'' @ [CHR 0x0A]] @ message)))"

subsection \<open>Vocabulary of the properties\<close>

text \<open>The groups a pattern can set.\<close>

fun groups :: "regex \<Rightarrow> group set" where
  "groups (Lit l) = {}"
| "groups Bol = {}"
| "groups (Chars cs) = {}"
| "groups (Star k) = {}"
| "groups (Plus k) = {}"
| "groups (Opt r) = groups r"
| "groups (Seq r1 r2) = groups r1 \<union> groups r2"
| "groups (Alt r1 r2) = groups r1 \<union> groups r2"
| "groups (Group g r) = insert g (groups r)"
| "groups (NotAhead r) = {}"

text \<open>
  The text before position \<open>a\<close> is \<^verbatim>\<open>List<\<close> or \<^verbatim>\<open>Set<\<close>: the element type
  of a collection starts at \<open>a\<close>.
\<close>

definition collection_before :: "string \<Rightarrow> nat \<Rightarrow> bool" where
  "collection_before s a =
     (5 \<le> a \<and> take 5 (drop (a - 5) s) = ''List<'' \<or> 4 \<le> a \<and> take 4 (drop (a - 4) s) = ''Set<'')"

text \<open>
  The shapes of a declaration, read off the text. At \<open>p\<close> starts a collection type when
  the text there is \<^verbatim>\<open>List<\<close> or \<^verbatim>\<open>Set<\<close>, a non-empty run of word characters and
  \<^verbatim>\<open>>\<close>. At \<open>k\<close> stands a nullable marker or a default when the text there is
  \<^verbatim>\<open>?\<close>, or an optional colon, at least one white-space character and \<^verbatim>\<open>=\<close>.
  The type of a recognized field starts at \<open>type_position\<close>: after the name, the colon
  and the white space that follows it. \<open>shape_cardinality\<close> is the cardinality of the
  amended claim C3: \<^verbatim>\<open>repeated\<close> for a collection type, else \<^verbatim>\<open>optional\<close> when the
  type identifier is directly followed by a nullable marker or a default, else
  \<^verbatim>\<open>required\<close>.
\<close>

definition element_shape :: "string \<Rightarrow> nat \<Rightarrow> bool" where
  "element_shape s a = (0 < run_of Word s a \<and> take 1 (drop (a + run_of Word s a) s) = ''>'')"

definition collection_at :: "string \<Rightarrow> nat \<Rightarrow> bool" where
  "collection_at s p =
     (take 5 (drop p s) = ''List<'' \<and> element_shape s (p + 5)
      \<or> take 4 (drop p s) = ''Set<'' \<and> element_shape s (p + 4))"

definition nullable_or_default_at :: "string \<Rightarrow> nat \<Rightarrow> bool" where
  "nullable_or_default_at s k =
     (let e = (if take 1 (drop k s) = '':'' then k + 1 else k)
      in take 1 (drop k s) = ''?''
         \<or> (0 < run_of Space s e \<and> take 1 (drop (e + run_of Space s e) s) = ''=''))"

definition type_position :: "string \<Rightarrow> rmatch \<Rightarrow> nat" where
  "type_position s field =
     (case m_caps field G_name of
        None \<Rightarrow> 0
      | Some (n0, n1) \<Rightarrow> n1 + 1 + run_of Space s (n1 + 1))"

definition shape_cardinality :: "string \<Rightarrow> nat \<Rightarrow> string" where
  "shape_cardinality s p =
     (if collection_at s p then ''repeated''
      else if nullable_or_default_at s (p + run_of Word s p) then ''optional''
      else ''required'')"

text \<open>
  The identifier at a position is the run of word characters that starts there. The
  element type of a collection type at \<open>p\<close> starts at \<open>element_position\<close>: behind
  \<^verbatim>\<open>List<\<close> or \<^verbatim>\<open>Set<\<close>.
\<close>

definition element_position :: "string \<Rightarrow> nat \<Rightarrow> nat" where
  "element_position s p = (if take 5 (drop p s) = ''List<'' then p + 5 else p + 4)"

definition identifier_at :: "string \<Rightarrow> nat \<Rightarrow> string" where
  "identifier_at s a = takeWhile (in_class Word) (drop a s)"

text \<open>
  \<open>line_before s p\<close> is the text between the start of the line of position \<open>p\<close> and
  \<open>p\<close>; a position is commented out when that text contains the line comment marker
  \<^verbatim>\<open>//\<close>. \<open>annotations s\<close> lists the positions where \<^verbatim>\<open>@ProtoNumber(\<close> occurs.
\<close>

definition line_before :: "string \<Rightarrow> nat \<Rightarrow> string" where
  "line_before s p = rev (takeWhile (\<lambda>ch. ch \<noteq> CHR 0x0A) (rev (take p s)))"

fun has_comment_marker :: "string \<Rightarrow> bool" where
  "has_comment_marker (a # b # rest) =
     (if a = CHR ''/'' \<and> b = CHR ''/'' then True else has_comment_marker (b # rest))"
| "has_comment_marker [a] = False"
| "has_comment_marker [] = False"

definition commented_out :: "string \<Rightarrow> nat \<Rightarrow> bool" where
  "commented_out s p = has_comment_marker (line_before s p)"

definition annotations :: "string \<Rightarrow> nat list" where
  "annotations s = filter (\<lambda>p. take 13 (drop p s) = ''@ProtoNumber('') [0 ..< length s]"

text \<open>
  The Type Mapper in the words of the specification: the six scalar names map to their
  wire types, every other name to itself.
\<close>

definition spec_type_mapper :: "string \<Rightarrow> string" where
  "spec_type_mapper t =
     (if t = ''String'' then ''string''
      else if t = ''Int'' then ''int32''
      else if t = ''Long'' then ''int64''
      else if t = ''Boolean'' then ''bool''
      else if t = ''Float'' then ''float''
      else if t = ''PreferenceValue'' then ''bytes''
      else t)"

text \<open>Two class bodies used as concrete inputs.\<close>

definition body_with_comment :: string where
  "body_with_comment =
     ''@ProtoNumber(1) var name: String,'' @ [CHR 0x0A]
     @ ''    // @ProtoNumber(3) val updateInterval: Int = 0,'' @ [CHR 0x0A]
     @ ''    @ProtoNumber(100) var flags: Long = 0,''"

definition body_only_commented :: string where
  "body_only_commented =
     ''// @ProtoNumber(3) val x: Int'' @ [CHR 0x0A] @ ''val y: Long''"

section \<open>Properties of the container codec\<close>

subsection \<open>Helper facts\<close>

lemma mode_b_invalid: "\<not> mode_valid ''b''"
  by (simp add: mode_valid_def)

lemma mode_valid_rb: "mode_valid ''rb''"
  and mode_valid_wb: "mode_valid ''wb''"
  and mode_valid_wt: "mode_valid ''wt''"
  by (simp_all add: mode_valid_def)

lemma open_read_b: "open_read path ''b'' w = (Raise ValueError, w)"
  by (simp add: open_read_def mode_b_invalid)

lemma output_json_no_container_ext:
  "\<not> endswith ''output.json'' ''.tachibk''" "\<not> endswith ''output.json'' ''.proto.gz''"
  "endswith ''encoded_backup.tachibk'' ''.tachibk''"
  by (simp_all add: endswith_def)

lemma write_backup_compressed:
  assumes "p = (if args_output a = ''output.json'' then ''encoded_backup.tachibk'' else args_output a)"
      and "endswith p ''.proto.gz'' \<or> endswith p ''.tachibk''"
  shows "write_backup x a msg w =
          (Return (), print (''Compressed backup written to '' @ p)
             ((log_open p ''wb'' w)\<lparr>files := (files w)(resolve w p \<mapsto> gzip_compress x msg)\<rparr>))"
  using assms by (simp add: write_backup_def Let_def and_then_def gzip_open_write_def)

lemma write_backup_raw:
  assumes "p = (if args_output a = ''output.json'' then ''encoded_backup.tachibk'' else args_output a)"
      and "\<not> endswith p ''.proto.gz''" "\<not> endswith p ''.tachibk''"
  shows "write_backup x a msg w =
          (Return (), print (''Uncompressed backup written to '' @ p)
             ((log_open p ''wb'' w)\<lparr>files := (files w)(resolve w p \<mapsto> msg)\<rparr>))"
  using assms by (simp add: write_backup_def Let_def and_then_def open_write_def mode_valid_wb)

lemma files_print [simp]: "files (print l w) = files w"
  and opens_print [simp]: "opens (print l w) = opens w"
  and files_print_help [simp]: "files (print_help w) = files w"
  and opens_print_help [simp]: "opens (print_help w) = opens w"
  and files_log_open [simp]: "files (log_open p m w) = files w"
  and opens_log_open [simp]: "opens (log_open p m w) = opens w @ [(p, m)]"
  and stdout_log_open [simp]: "stdout (log_open p m w) = stdout w"
  and resolve_print [simp]: "resolve (print l w) = resolve w"
  and resolve_print_help [simp]: "resolve (print_help w) = resolve w"
  and resolve_log_open [simp]: "resolve (log_open p m w) = resolve w"
  by (simp_all add: print_def print_help_def log_open_def)

lemma resolve_demo:
  "lexical_resolve ''output.json'' = ''output.json''"
  "lexical_resolve ''encoded_backup.tachibk'' = ''encoded_backup.tachibk''"
  "lexical_resolve ''extracted_tachibk'' = ''extracted_tachibk''"
  "lexical_resolve ''sub/../output.json'' = ''output.json''"
  "lexical_resolve ''new.tachibk'' = ''new.tachibk''"
  "lexical_resolve ''new.bin'' = ''new.bin''"
  "lexical_resolve ''mine.bin'' = ''mine.bin''"
  "lexical_resolve ''old.tachibk'' = ''old.tachibk''"
  "lexical_resolve ''old.proto.gz'' = ''old.proto.gz''"
  "lexical_resolve ''old.bin'' = ''old.bin''"
  "lexical_resolve ''backup.bin'' = ''backup.bin''"
  by code_simp+

subsection \<open>Encoding from JSON\<close>

text \<open>
  C1. The claim: an invocation whose input path ends in \<^verbatim>\<open>.json\<close>, with the default
  output, reads the JSON mirror, serializes it and writes \<^verbatim>\<open>encoded_backup.tachibk\<close>.
  The script opens the JSON file with the mode \<^verbatim>\<open>'b'\<close>, which names none of read,
  write, append or create, so the builtin raises ValueError before the file is touched.
  For the input \<^verbatim>\<open>output.json\<close> and the default output, whatever the file system
  holds and whatever the serializer does, the run ends in that unhandled exception and the
  world is left as it was: nothing is written.
\<close>

theorem encode_default_raises:
  "main x \<lparr>args_input = ''output.json'', args_output = ''output.json''\<rparr> w = (Raise ValueError, w)"
  by (simp add: main_def endswith_def parse_json_def open_read_b and_then_def)

text \<open>
  C6. The claim: a malformed JSON mirror ends the run with a short diagnostic, and a JSON
  file that cannot be read ends it with \<^verbatim>\<open>ERROR! Could not read the JSON file.\<close> and a
  non-zero exit status. Neither handler of \<^verbatim>\<open>parse_json\<close> is ever reached: for every
  path, every file system and every serializer the function raises ValueError at the call
  of \<^verbatim>\<open>open\<close>, prints nothing and exits through no \<^verbatim>\<open>exit(1)\<close>.
\<close>

theorem parse_json_always_raises: "parse_json x inp w = (Raise ValueError, w)"
  by (simp add: parse_json_def open_read_b)

subsection \<open>Compression framing\<close>

text \<open>
  C5, as the claim states it, would have every output path that ends in neither container
  extension written as raw bytes. The path \<^verbatim>\<open>output.json\<close> ends in neither, and
  \<^verbatim>\<open>write_backup\<close> replaces it by \<^verbatim>\<open>encoded_backup.tachibk\<close>: no raw bytes reach
  \<^verbatim>\<open>output.json\<close>, and the compressed message is written to the replacement.
\<close>

theorem default_output_compressed_counterexample:
  "\<not> endswith ''output.json'' ''.tachibk'' \<and> \<not> endswith ''output.json'' ''.proto.gz''
   \<and> files (snd (write_backup demo_ext \<lparr>args_input = ''edited.json'', args_output = ''output.json''\<rparr>
         ''abc'' (demo_world []))) ''output.json'' \<noteq> Some ''abc''
   \<and> files (snd (write_backup demo_ext \<lparr>args_input = ''edited.json'', args_output = ''output.json''\<rparr>
         ''abc'' (demo_world []))) ''encoded_backup.tachibk'' = Some (gzip_compress demo_ext ''abc'')
   \<and> gzip_compress demo_ext ''abc'' \<noteq> ''abc''"
  by (simp add: write_backup_def Let_def and_then_def gzip_open_write_def endswith_def
      demo_world_def demo_ext_def print_def log_open_def resolve_demo)

text \<open>
  C5, amended. When encoding, an output path that ends in \<^verbatim>\<open>.tachibk\<close> or
  \<^verbatim>\<open>.proto.gz\<close> receives the gzip-compressed message; the output path
  \<^verbatim>\<open>output.json\<close> is replaced by \<^verbatim>\<open>encoded_backup.tachibk\<close>, which receives the
  compressed message; every other output path receives the raw message. When decoding,
  \<^verbatim>\<open>read_backup\<close> decompresses exactly when the input path ends in one of the two
  extensions: then the result is what gzip makes of the input file (an exception of gzip
  leaves the program, with no fallback to the raw bytes), and otherwise the bytes of
  \<^verbatim>\<open>extracted_tachibk\<close> are returned as they are, whatever they contain.
\<close>

theorem compression_follows_extension:
  "(endswith (args_output a) ''.tachibk'' \<or> endswith (args_output a) ''.proto.gz'' \<longrightarrow>
      fst (write_backup x a msg w) = Return ()
      \<and> files (snd (write_backup x a msg w)) = (files w)(resolve w (args_output a) \<mapsto> gzip_compress x msg))
   \<and> (args_output a = ''output.json'' \<longrightarrow>
      fst (write_backup x a msg w) = Return ()
      \<and> files (snd (write_backup x a msg w)) = (files w)(resolve w ''encoded_backup.tachibk'' \<mapsto> gzip_compress x msg))
   \<and> (\<not> endswith (args_output a) ''.tachibk'' \<and> \<not> endswith (args_output a) ''.proto.gz''
        \<and> args_output a \<noteq> ''output.json'' \<longrightarrow>
      fst (write_backup x a msg w) = Return ()
      \<and> files (snd (write_backup x a msg w)) = (files w)(resolve w (args_output a) \<mapsto> msg))
   \<and> (endswith inp ''.tachibk'' \<or> endswith inp ''.proto.gz'' \<longrightarrow>
      fst (read_backup x inp w) =
        (case files w (resolve w inp) of None \<Rightarrow> Raise OSError
         | Some c \<Rightarrow> (case gzip_decompress x c of Inl e \<Rightarrow> Raise e | Inr d \<Rightarrow> Return d)))
   \<and> (\<not> endswith inp ''.tachibk'' \<and> \<not> endswith inp ''.proto.gz'' \<longrightarrow>
      fst (read_backup x inp w) =
        (case files w (resolve w ''extracted_tachibk'') of None \<Rightarrow> Exit 1 | Some c \<Rightarrow> Return c))"
proof (intro conjI impI)
  assume h: "endswith (args_output a) ''.tachibk'' \<or> endswith (args_output a) ''.proto.gz''"
  then have ne: "args_output a \<noteq> ''output.json''"
    using output_json_no_container_ext by auto
  from h ne show "fst (write_backup x a msg w) = Return ()"
    and "files (snd (write_backup x a msg w)) = (files w)(resolve w (args_output a) \<mapsto> gzip_compress x msg)"
    by (auto simp: write_backup_compressed [where p = "args_output a"])
next
  assume h: "args_output a = ''output.json''"
  then show "fst (write_backup x a msg w) = Return ()"
    and "files (snd (write_backup x a msg w)) = (files w)(resolve w ''encoded_backup.tachibk'' \<mapsto> gzip_compress x msg)"
    by (simp_all add: write_backup_compressed [where p = "''encoded_backup.tachibk''"]
        output_json_no_container_ext)
next
  assume h: "\<not> endswith (args_output a) ''.tachibk'' \<and> \<not> endswith (args_output a) ''.proto.gz''
        \<and> args_output a \<noteq> ''output.json''"
  then show "fst (write_backup x a msg w) = Return ()"
    and "files (snd (write_backup x a msg w)) = (files w)(resolve w (args_output a) \<mapsto> msg)"
    by (simp_all add: write_backup_raw [where p = "args_output a"])
next
  assume "endswith inp ''.tachibk'' \<or> endswith inp ''.proto.gz''"
  then show "fst (read_backup x inp w) =
        (case files w (resolve w inp) of None \<Rightarrow> Raise OSError
         | Some c \<Rightarrow> (case gzip_decompress x c of Inl e \<Rightarrow> Raise e | Inr d \<Rightarrow> Return d))"
    by (auto simp: read_backup_def gzip_open_read_def open_write_def mode_valid_wb and_then_def
        split: option.splits sum.splits)
next
  assume "\<not> endswith inp ''.tachibk'' \<and> \<not> endswith inp ''.proto.gz''"
  then show "fst (read_backup x inp w) =
        (case files w (resolve w ''extracted_tachibk'') of None \<Rightarrow> Exit 1 | Some c \<Rightarrow> Return c)"
    by (auto simp: read_backup_def open_read_def mode_valid_rb split: option.splits)
qed

theorem compression_follows_extension_witness:
  "files (snd (write_backup demo_ext \<lparr>args_input = ''output.json'', args_output = ''new.tachibk''\<rparr> ''abc'' (demo_world [])))
     = [''new.tachibk'' \<mapsto> ''GZabc'']
   \<and> files (snd (write_backup demo_ext \<lparr>args_input = ''output.json'', args_output = ''output.json''\<rparr> ''abc'' (demo_world [])))
     = [''encoded_backup.tachibk'' \<mapsto> ''GZabc'']
   \<and> files (snd (write_backup demo_ext \<lparr>args_input = ''output.json'', args_output = ''new.bin''\<rparr> ''abc'' (demo_world [])))
     = [''new.bin'' \<mapsto> ''abc'']
   \<and> fst (read_backup demo_ext ''old.proto.gz'' (demo_world [(''old.proto.gz'', ''GZabc'')])) = Return ''abc''
   \<and> fst (read_backup demo_ext ''old.bin'' (demo_world [(''extracted_tachibk'', ''GZabc'')])) = Return ''GZabc''"
  using compression_follows_extension [of "\<lparr>args_input = ''output.json'', args_output = ''new.tachibk''\<rparr>"
          demo_ext "''abc''" "demo_world []" "''old.proto.gz''"]
        compression_follows_extension [of "\<lparr>args_input = ''output.json'', args_output = ''output.json''\<rparr>"
          demo_ext "''abc''" "demo_world []" "''old.bin''"]
        compression_follows_extension [of "\<lparr>args_input = ''output.json'', args_output = ''new.bin''\<rparr>"
          demo_ext "''abc''" "demo_world []" "''old.bin''"]
        compression_follows_extension [of "\<lparr>args_input = ''output.json'', args_output = ''new.bin''\<rparr>"
          demo_ext "''abc''" "demo_world [(''old.proto.gz'', ''GZabc'')]" "''old.proto.gz''"]
        compression_follows_extension [of "\<lparr>args_input = ''output.json'', args_output = ''new.bin''\<rparr>"
          demo_ext "''abc''" "demo_world [(''extracted_tachibk'', ''GZabc'')]" "''old.bin''"]
  by (simp add: endswith_def demo_world_def demo_ext_def resolve_demo)

text \<open>
  C10, as the claim states it, would have the encode direction never write its output to
  the file \<^verbatim>\<open>output.json\<close>. The guard of \<^verbatim>\<open>write_backup\<close> compares the string
  \<^verbatim>\<open>str(args.output)\<close> with \<^verbatim>\<open>output.json\<close>. The output path
  \<^verbatim>\<open>sub/../output.json\<close> is another spelling of that file and another string: it takes
  the branch for every other path, is opened as given, and the raw message replaces the
  content of \<^verbatim>\<open>output.json\<close>.
\<close>

theorem aliased_output_json_counterexample:
  "''sub/../output.json'' \<noteq> ''output.json''
   \<and> resolve (demo_world [(''output.json'', ''{old}'')]) ''sub/../output.json''
       = resolve (demo_world [(''output.json'', ''{old}'')]) ''output.json''
   \<and> files (demo_world [(''output.json'', ''{old}'')]) ''output.json'' = Some ''{old}''
   \<and> opens (snd (write_backup demo_ext
         \<lparr>args_input = ''edited.json'', args_output = ''sub/../output.json''\<rparr> ''abc''
         (demo_world [(''output.json'', ''{old}'')]))) = [(''sub/../output.json'', ''wb'')]
   \<and> files (snd (write_backup demo_ext
         \<lparr>args_input = ''edited.json'', args_output = ''sub/../output.json''\<rparr> ''abc''
         (demo_world [(''output.json'', ''{old}'')]))) ''output.json'' = Some ''abc''"
  by (simp add: write_backup_raw [where p = "''sub/../output.json''"] endswith_def
      demo_world_def resolve_demo)

text \<open>
  C10, amended. When encoding, the output path \<^verbatim>\<open>output.json\<close> (the default, or the
  same string supplied by the caller) is replaced by \<^verbatim>\<open>encoded_backup.tachibk\<close>; any
  other output path is the one path opened, exactly as given; the path string
  \<^verbatim>\<open>output.json\<close> is never opened; and the file \<^verbatim>\<open>output.json\<close> keeps its content
  whenever the path that is opened does not resolve to that file. Paths are compared as
  the strings \<^verbatim>\<open>str(args.output)\<close>, not as the files they denote.
\<close>

theorem encode_output_path:
  "(args_output a = ''output.json'' \<longrightarrow>
      opens (snd (write_backup x a msg w)) = opens w @ [(''encoded_backup.tachibk'', ''wb'')]
      \<and> files (snd (write_backup x a msg w))
          = (files w)(resolve w ''encoded_backup.tachibk'' \<mapsto> gzip_compress x msg))
   \<and> (args_output a \<noteq> ''output.json'' \<longrightarrow>
      opens (snd (write_backup x a msg w)) = opens w @ [(args_output a, ''wb'')]
      \<and> dom (files (snd (write_backup x a msg w))) = insert (resolve w (args_output a)) (dom (files w)))
   \<and> ''output.json'' \<notin> fst ` set (drop (length (opens w)) (opens (snd (write_backup x a msg w))))
   \<and> (resolve w (if args_output a = ''output.json'' then ''encoded_backup.tachibk'' else args_output a)
          \<noteq> resolve w ''output.json'' \<longrightarrow>
        files (snd (write_backup x a msg w)) (resolve w ''output.json'') = files w (resolve w ''output.json''))"
proof (cases "args_output a = ''output.json''")
  case True
  then show ?thesis
    by (simp add: write_backup_compressed [where p = "''encoded_backup.tachibk''"]
        output_json_no_container_ext)
next
  case False
  show ?thesis
  proof (cases "endswith (args_output a) ''.proto.gz'' \<or> endswith (args_output a) ''.tachibk''")
    case True
    with False show ?thesis
      by (simp add: write_backup_compressed [where p = "args_output a"])
  next
    case False
    with \<open>args_output a \<noteq> ''output.json''\<close> show ?thesis
      by (simp add: write_backup_raw [where p = "args_output a"])
  qed
qed

theorem encode_output_path_witness:
  "opens (snd (write_backup demo_ext \<lparr>args_input = ''edited.json'', args_output = ''output.json''\<rparr>
       ''abc'' (demo_world [(''output.json'', ''{old}'')])))
     = [(''encoded_backup.tachibk'', ''wb'')]
   \<and> files (snd (write_backup demo_ext \<lparr>args_input = ''edited.json'', args_output = ''output.json''\<rparr>
       ''abc'' (demo_world [(''output.json'', ''{old}'')]))) ''output.json'' = Some ''{old}''
   \<and> opens (snd (write_backup demo_ext \<lparr>args_input = ''edited.json'', args_output = ''mine.bin''\<rparr>
       ''abc'' (demo_world [(''output.json'', ''{old}'')])))
     = [(''mine.bin'', ''wb'')]
   \<and> files (snd (write_backup demo_ext \<lparr>args_input = ''edited.json'', args_output = ''mine.bin''\<rparr>
       ''abc'' (demo_world [(''output.json'', ''{old}'')]))) ''output.json'' = Some ''{old}''"
  using encode_output_path [of "\<lparr>args_input = ''edited.json'', args_output = ''output.json''\<rparr>"
          demo_ext "''abc''" "demo_world [(''output.json'', ''{old}'')]"]
        encode_output_path [of "\<lparr>args_input = ''edited.json'', args_output = ''mine.bin''\<rparr>"
          demo_ext "''abc''" "demo_world [(''output.json'', ''{old}'')]"]
  by (simp add: demo_world_def resolve_demo)

subsection \<open>Decoding\<close>

text \<open>
  C7. When the input path ends in none of \<^verbatim>\<open>.json\<close>, \<^verbatim>\<open>.tachibk\<close> and
  \<^verbatim>\<open>.proto.gz\<close> and no file \<^verbatim>\<open>extracted_tachibk\<close> exists, the run exits with
  status 1 after printing \<^verbatim>\<open>ERROR! No Backup to process.\<close> and the usage help, and
  the file system is unchanged: no output file is created.
\<close>

theorem decode_without_backup:
  assumes "\<not> endswith (args_input a) ''.json''"
      and "\<not> endswith (args_input a) ''.tachibk''"
      and "\<not> endswith (args_input a) ''.proto.gz''"
      and "files w (resolve w ''extracted_tachibk'') = None"
  shows "fst (main x a w) = Exit 1
       \<and> stdout (snd (main x a w)) = stdout w @ [Print ''ERROR! No Backup to process.'', PrintHelp]
       \<and> files (snd (main x a w)) = files w"
  using assms
  by (simp add: main_def read_backup_def open_read_def mode_valid_rb and_then_def
      print_def print_help_def log_open_def)

theorem decode_without_backup_witness:
  "fst (main demo_ext \<lparr>args_input = ''backup.bin'', args_output = ''output.json''\<rparr> (demo_world [])) = Exit 1
   \<and> stdout (snd (main demo_ext \<lparr>args_input = ''backup.bin'', args_output = ''output.json''\<rparr> (demo_world [])))
       = [Print ''ERROR! No Backup to process.'', PrintHelp]
   \<and> files (snd (main demo_ext \<lparr>args_input = ''backup.bin'', args_output = ''output.json''\<rparr> (demo_world []))) = Map.empty"
  using decode_without_backup [of "\<lparr>args_input = ''backup.bin'', args_output = ''output.json''\<rparr>" "demo_world []" demo_ext]
  by (simp add: endswith_def demo_world_def resolve_demo)



section \<open>Properties of the schema derivation\<close>

subsection \<open>What the matcher returns\<close>

lemma run_Lit_iff:
  "(j, c') \<in> set (run s (Lit l) (i, c)) \<longleftrightarrow> take (length l) (drop i s) = l \<and> j = i + length l \<and> c' = c"
  by auto

lemma run_Bol_iff:
  "(j, c') \<in> set (run s Bol (i, c)) \<longleftrightarrow> (i = 0 \<or> take 1 (drop (i - 1) s) = [CHR 0x0A]) \<and> j = i \<and> c' = c"
  by auto

lemma run_Chars_iff:
  "(j, c') \<in> set (run s (Chars cs) (i, c)) \<longleftrightarrow> i < length s \<and> s ! i \<in> set cs \<and> j = i + 1 \<and> c' = c"
  by auto

lemma image_shift_iff:
  "(j, c') \<in> (\<lambda>n. (i + n, c)) ` {lo..hi} \<longleftrightarrow> i + lo \<le> j \<and> j \<le> i + hi \<and> c' = (c::'c)" for i j lo hi :: nat
proof
  assume "(j, c') \<in> (\<lambda>n. (i + n, c)) ` {lo..hi}"
  then show "i + lo \<le> j \<and> j \<le> i + hi \<and> c' = c" by auto
next
  assume h: "i + lo \<le> j \<and> j \<le> i + hi \<and> c' = c"
  then have "j - i \<in> {lo..hi}" and "(j, c') = (i + (j - i), c)" by auto
  then show "(j, c') \<in> (\<lambda>n. (i + n, c)) ` {lo..hi}" by (rule rev_image_eqI)
qed

lemma run_Star_iff:
  "(j, c') \<in> set (run s (Star k) (i, c)) \<longleftrightarrow> i \<le> j \<and> j \<le> i + run_of k s i \<and> c' = c"
proof -
  have "set (run s (Star k) (i, c)) = (\<lambda>n. (i + n, c)) ` {0..run_of k s i}"
    by (simp del: upt_Suc add: atLeastLessThanSuc_atLeastAtMost)
  then show ?thesis by (simp add: image_shift_iff)
qed

lemma run_Plus_iff:
  "(j, c') \<in> set (run s (Plus k) (i, c)) \<longleftrightarrow> i < j \<and> j \<le> i + run_of k s i \<and> c' = c"
proof -
  have "set (run s (Plus k) (i, c)) = (\<lambda>n. (i + n, c)) ` {1..run_of k s i}"
    by (simp del: upt_Suc add: atLeastLessThanSuc_atLeastAtMost)
  then show ?thesis by (auto simp: image_shift_iff)
qed

lemma run_Opt_iff:
  "x \<in> set (run s (Opt r) st) \<longleftrightarrow> x \<in> set (run s r st) \<or> x = st"
  by auto

lemma run_Seq_iff:
  "x \<in> set (run s (Seq r1 r2) st) \<longleftrightarrow> (\<exists>k c1. (k, c1) \<in> set (run s r1 st) \<and> x \<in> set (run s r2 (k, c1)))"
  by auto

lemma run_Alt_iff:
  "x \<in> set (run s (Alt r1 r2) st) \<longleftrightarrow> x \<in> set (run s r1 st) \<or> x \<in> set (run s r2 st)"
  by auto

lemma run_Group_iff:
  "(j, c') \<in> set (run s (Group g r) (i, c)) \<longleftrightarrow>
     (\<exists>c1. (j, c1) \<in> set (run s r (i, c)) \<and> c' = c1(g := Some (i, j)))"
  by (force simp: image_iff)

lemma run_NotAhead_iff:
  "x \<in> set (run s (NotAhead r) st) \<longleftrightarrow> run s r st = [] \<and> x = st"
  by auto

lemmas run_iffs = run_Lit_iff run_Bol_iff run_Chars_iff run_Star_iff run_Plus_iff run_Opt_iff
  run_Seq_iff run_Alt_iff run_Group_iff run_NotAhead_iff

lemma run_frame:
  "(j, c') \<in> set (run s r (i, c)) \<Longrightarrow> g \<notin> groups r \<Longrightarrow> c' g = c g"
proof (induction r arbitrary: i c j c')
  case (Seq r1 r2)
  then show ?case by (fastforce simp: run_Seq_iff)
next
  case (Group g' r)
  then show ?case by (fastforce simp: run_Group_iff)
qed (auto simp: run_iffs simp del: run.simps)

lemma run_of_bound: "i \<le> length s \<Longrightarrow> i + run_of k s i \<le> length s"
proof -
  have "run_of k s i \<le> length (drop i s)"
    unfolding run_of_def by (rule length_takeWhile_le)
  then show "i \<le> length s \<Longrightarrow> i + run_of k s i \<le> length s" by simp
qed

lemma run_of_class: "i \<le> p \<Longrightarrow> p < i + run_of k s i \<Longrightarrow> in_class k (s ! p)"
proof -
  assume a: "i \<le> p" and b: "p < i + run_of k s i"
  let ?t = "takeWhile (in_class k) (drop i s)"
  from a b have lt: "p - i < length ?t" by (simp add: run_of_def)
  then have "?t ! (p - i) \<in> set ?t" by (rule nth_mem)
  then have "in_class k (?t ! (p - i))" by (rule set_takeWhileD [THEN conjunct2])
  moreover have "?t ! (p - i) = drop i s ! (p - i)" using lt by (rule takeWhile_nth)
  moreover have "p - i < length (drop i s)"
    using lt length_takeWhile_le [of "in_class k" "drop i s"] by linarith
  ultimately show ?thesis using a by simp
qed

lemma run_bounds:
  "(j, c') \<in> set (run s r (i, c)) \<Longrightarrow> i \<le> j \<and> (i \<le> length s \<longrightarrow> j \<le> length s)"
proof (induction r arbitrary: i c j c')
  case (Lit l)
  then have "take (length l) (drop i s) = l" and j: "j = i + length l"
    by (auto simp: run_Lit_iff)
  then have "length (take (length l) (drop i s)) = length l"
    by simp
  then have "length l \<le> length s - i"
    by simp
  with j show ?case by auto
next
  case (Star k)
  then show ?case using run_of_bound [of i s k] by (auto simp: run_Star_iff)
next
  case (Plus k)
  then show ?case using run_of_bound [of i s k] by (auto simp: run_Plus_iff)
next
  case (Seq r1 r2)
  then show ?case by (fastforce simp: run_Seq_iff)
next
  case (Group g r)
  then show ?case by (fastforce simp: run_Group_iff)
qed (auto simp: run_iffs simp del: run.simps split: if_splits)

lemma finditer_from_sound:
  "m \<in> set (finditer_from r s i) \<Longrightarrow> \<exists>k. i \<le> k \<and> k \<le> length s \<and> match_at r s k = Some m"
proof (induction r s i rule: finditer_from.induct)
  case (1 r s i)
  show ?case
  proof (cases "length s < i")
    case True
    with "1.prems" show ?thesis by (subst (asm) finditer_from.simps) simp
  next
    case False
    note le = this
    show ?thesis
    proof (cases "match_at r s i")
      case None
      with le "1.prems" have "m \<in> set (finditer_from r s (Suc i))"
        by (subst (asm) finditer_from.simps) simp
      with "1.IH"(1) [OF le None] show ?thesis by (meson Suc_leD)
    next
      case (Some m')
      let ?n = "if m_end m' \<le> i then Suc i else m_end m'"
      from le Some "1.prems" have "m = m' \<or> m \<in> set (finditer_from r s ?n)"
        by (subst (asm) finditer_from.simps) simp
      then show ?thesis
      proof
        assume "m = m'"
        with Some le show ?thesis by (intro exI [of _ i]) simp
      next
        assume "m \<in> set (finditer_from r s ?n)"
        with "1.IH"(2) [OF le Some] obtain k where "?n \<le> k" "k \<le> length s" "match_at r s k = Some m"
          by blast
        moreover have "i \<le> ?n" by simp
        ultimately show ?thesis by (meson le_trans)
      qed
    qed
  qed
qed

lemma match_at_run:
  "match_at r s k = Some m \<Longrightarrow> m_start m = k \<and> (m_end m, m_caps m) \<in> set (run s r (k, \<lambda>g. None))"
  by (auto simp: match_at_def split: list.splits)

lemma finditer_run:
  assumes "m \<in> set (finditer r s)"
  shows "m_start m \<le> length s \<and> (m_end m, m_caps m) \<in> set (run s r (m_start m, \<lambda>g. None))"
  using finditer_from_sound [of m r s 0] assms match_at_run [of r s _ m]
  by (auto simp: finditer_def)

lemma run_Lit_len:
  "length l = n \<Longrightarrow>
     (j, c') \<in> set (run s (Lit l) (i, c)) \<longleftrightarrow> take n (drop i s) = l \<and> j = i + n \<and> c' = c"
  by auto

lemmas run_lits =
  run_Lit_len [of "''@ProtoNumber(''" 13] run_Lit_len [of "''//''" 2] run_Lit_len [of "'')''" 1]
  run_Lit_len [of "''data class ''" 11] run_Lit_len [of "''(''" 1] run_Lit_len [of "''va''" 2]
  run_Lit_len [of "'':''" 1] run_Lit_len [of "''List''" 4] run_Lit_len [of "''Set''" 3]
  run_Lit_len [of "''<''" 1] run_Lit_len [of "''>''" 1] run_Lit_len [of "''?''" 1]
  run_Lit_len [of "''=''" 1]

lemmas run_rules = run_Bol_iff run_Chars_iff run_Star_iff run_Plus_iff run_Opt_iff
  run_Seq_iff run_Alt_iff run_Group_iff run_NotAhead_iff

lemma annotation_shape:
  assumes "(k, c1) \<in> set (run s annotation (i, c))"
  shows "\<exists>n b. (i = 0 \<or> take 1 (drop (i - 1) s) = [CHR 0x0A]) \<and> n \<le> run_of Space s i
           \<and> take 13 (drop (i + n) s) = ''@ProtoNumber(''
           \<and> c1 = c(G_number := Some (i + n + 13, b)) \<and> i + n + 13 < b \<and> b \<le> k"
proof -
  from assms obtain j b where bol: "i = 0 \<or> take 1 (drop (i - 1) s) = [CHR 0x0A]"
    and j: "i \<le> j" "j \<le> i + run_of Space s i"
    and lit: "take 13 (drop j s) = ''@ProtoNumber(''"
    and b: "j + 13 < b" "b + 1 \<le> k" and c1: "c1 = c(G_number := Some (j + 13, b))"
    by (auto simp: annotation_def run_rules run_lits simp del: run.simps)
  then show ?thesis
    by (intro exI [of _ "j - i"] exI [of _ b]) auto
qed

lemma prefix_number:
  assumes "(k, c1) \<in> set (run s (Alt annotation (Alt class_head Bol)) (i, \<lambda>g. None))"
  shows "(\<forall>g. c1 g = None) \<or>
         (\<exists>n b. (i = 0 \<or> take 1 (drop (i - 1) s) = [CHR 0x0A]) \<and> n \<le> run_of Space s i
           \<and> take 13 (drop (i + n) s) = ''@ProtoNumber(''
           \<and> c1 = (\<lambda>g. None)(G_number := Some (i + n + 13, b)) \<and> i + n + 13 < b \<and> b \<le> k)"
  using assms annotation_shape [of k c1 s i "\<lambda>g. None"]
  by (auto simp: class_head_def run_rules run_lits simp del: run.simps)

lemma groups_var_decl: "groups var_decl = {G_name, G_list, G_type, G_optional, G_6}"
  by (auto simp: var_decl_def type_pattern_def optional_pattern_def)

lemma take_lit_append:
  assumes "take n (drop i s) = u" and "take m (drop (i + n) s) = v"
  shows "take (n + m) (drop i s) = u @ v"
proof -
  have "take (n + m) (drop i s) = take n (drop i s) @ take m (drop n (drop i s))"
    by (rule take_add)
  also have "drop n (drop i s) = drop (i + n) s"
    by (simp add: add.commute)
  finally show ?thesis using assms by simp
qed

lemma type_pattern_cases:
  assumes "(k, c1) \<in> set (run s type_pattern (a0, c))"
  shows "(\<exists>b. c1 = c(G_list := Some (a0 + 5, b)) \<and> a0 + 5 < b \<and> b \<le> a0 + 5 + run_of Word s (a0 + 5)
            \<and> take 4 (drop a0 s) = ''List'' \<and> take 1 (drop (a0 + 4) s) = ''<''
            \<and> take 1 (drop b s) = ''>'' \<and> k = b + 1)
       \<or> (\<exists>b. c1 = c(G_list := Some (a0 + 4, b)) \<and> a0 + 4 < b \<and> b \<le> a0 + 4 + run_of Word s (a0 + 4)
            \<and> take 3 (drop a0 s) = ''Set'' \<and> take 1 (drop (a0 + 3) s) = ''<''
            \<and> take 1 (drop b s) = ''>'' \<and> k = b + 1)
       \<or> (c1 = c(G_type := Some (a0, k)) \<and> a0 < k \<and> k \<le> a0 + run_of Word s a0)"
  using assms
  by (auto simp: type_pattern_def run_rules run_lits add.commute add.left_commute simp del: run.simps)

lemma type_pattern_shape:
  assumes "(k, c1) \<in> set (run s type_pattern (a0, c))"
  shows "(\<exists>a b. c1 = c(G_list := Some (a, b)) \<and> a0 < a \<and> a < b \<and> b \<le> a + run_of Word s a \<and> b < k
            \<and> (5 \<le> a \<and> take 5 (drop (a - 5) s) = ''List<'' \<or> 4 \<le> a \<and> take 4 (drop (a - 4) s) = ''Set<'')
            \<and> take 1 (drop b s) = ''>'')
       \<or> (c1 = c(G_type := Some (a0, k)) \<and> a0 < k \<and> k \<le> a0 + run_of Word s a0)"
proof -
  from type_pattern_cases [OF assms] consider
    (list) b where "c1 = c(G_list := Some (a0 + 5, b))" "a0 + 5 < b" "b \<le> a0 + 5 + run_of Word s (a0 + 5)"
      "take 4 (drop a0 s) = ''List''" "take 1 (drop (a0 + 4) s) = ''<''" "take 1 (drop b s) = ''>''" "k = b + 1"
  | (set) b where "c1 = c(G_list := Some (a0 + 4, b))" "a0 + 4 < b" "b \<le> a0 + 4 + run_of Word s (a0 + 4)"
      "take 3 (drop a0 s) = ''Set''" "take 1 (drop (a0 + 3) s) = ''<''" "take 1 (drop b s) = ''>''" "k = b + 1"
  | (type) "c1 = c(G_type := Some (a0, k))" "a0 < k" "k \<le> a0 + run_of Word s a0"
    by blast
  then show ?thesis
  proof cases
    case list
    from take_lit_append [OF list(4) list(5)] have "take 5 (drop a0 s) = ''List<''" by simp
    with list show ?thesis by (intro disjI1 exI [of _ "a0 + 5"] exI [of _ b]) simp
  next
    case set
    from take_lit_append [OF set(4) set(5)] have "take 4 (drop a0 s) = ''Set<''" by simp
    with set show ?thesis by (intro disjI1 exI [of _ "a0 + 4"] exI [of _ b]) simp
  next
    case type
    then show ?thesis by simp
  qed
qed

lemma optional_pattern_shape:
  assumes "(j, c') \<in> set (run s optional_pattern (k, c1))"
  shows "(j = k \<and> c' = c1)
       \<or> (k < j \<and> c' G_optional = Some (k, j) \<and> (\<forall>g. g \<noteq> G_optional \<longrightarrow> g \<noteq> G_6 \<longrightarrow> c' g = c1 g)
            \<and> (j = k + 1 \<and> take 1 (drop k s) = ''?''
               \<or> take 1 (drop (j - 1) s) = ''=''))"
  using assms
  by (auto simp: optional_pattern_def run_rules run_lits simp del: run.simps)

lemma var_decl_split:
  assumes "(j, c') \<in> set (run s var_decl (i, c))"
  shows "\<exists>a0 k c0 c1. i < a0 \<and> (\<forall>g. g \<noteq> G_name \<longrightarrow> c0 g = c g)
           \<and> (k, c1) \<in> set (run s type_pattern (a0, c0))
           \<and> (j, c') \<in> set (run s optional_pattern (k, c1))"
proof -
  from assms obtain n0 n1 a0 k c1 where "Suc (Suc (Suc i)) < n0" "n0 < n1" "Suc n1 < a0"
      "(k, c1) \<in> set (run s type_pattern (a0, c(G_name := Some (n0, n1))))"
      "(j, c') \<in> set (run s optional_pattern (k, c1))"
    by (auto simp: var_decl_def run_rules run_lits simp del: run.simps)
  then show ?thesis
    by (intro exI [of _ a0] exI [of _ k] exI [of _ "c(G_name := Some (n0, n1))"] exI [of _ c1]) simp
qed

lemma match_shape:
  assumes run: "(j, c') \<in> set (run s PROTONUMBER_RE (i, \<lambda>g. None))" and i: "i \<le> length s"
  shows "((\<exists>a b. c' G_list = Some (a, b) \<and> c' G_type = None \<and> a < b \<and> b \<le> length s
             \<and> b \<le> a + run_of Word s a \<and> collection_before s a \<and> take 1 (drop b s) = ''>'')
          \<or> (\<exists>a b. c' G_type = Some (a, b) \<and> c' G_list = None \<and> a < b \<and> b \<le> length s
             \<and> b \<le> a + run_of Word s a))
       \<and> (c' G_optional = None
          \<or> (\<exists>a. c' G_optional = Some (a, j) \<and> a < j \<and> j \<le> length s
               \<and> (j = a + 1 \<and> take 1 (drop a s) = ''?'' \<or> take 1 (drop (j - 1) s) = ''='')))
       \<and> (c' G_number = None
          \<or> (\<exists>n b. (i = 0 \<or> take 1 (drop (i - 1) s) = [CHR 0x0A]) \<and> n \<le> run_of Space s i
               \<and> take 13 (drop (i + n) s) = ''@ProtoNumber(''
               \<and> c' G_number = Some (i + n + 13, b) \<and> i + n + 13 < b \<and> b \<le> length s))
       \<and> i < j \<and> j \<le> length s"
proof -
  from run obtain p cp where pre: "(p, cp) \<in> set (run s (Alt annotation (Alt class_head Bol)) (i, \<lambda>g. None))"
    and decl: "(j, c') \<in> set (run s var_decl (p, cp))"
    by (auto simp: PROTONUMBER_RE_def run_Seq_iff simp del: run.simps)
  from var_decl_split [OF decl] obtain a0 k c0 c1 where a0: "p < a0"
    and c0: "\<And>g. g \<noteq> G_name \<Longrightarrow> c0 g = cp g"
    and ty: "(k, c1) \<in> set (run s type_pattern (a0, c0))"
    and op: "(j, c') \<in> set (run s optional_pattern (k, c1))"
    by blast
  have ip: "i \<le> p" using run_bounds [OF pre] by simp
  have pj: "p \<le> j" and jl: "j \<le> length s"
    using run_bounds [OF decl] run_bounds [OF pre] i by simp_all
  have kj: "k \<le> j" using run_bounds [OF op] by simp
  have cp_none: "cp G_list = None" "cp G_type = None" "cp G_optional = None" "cp G_6 = None"
    using prefix_number [OF pre] by auto
  have num: "c' G_number = cp G_number"
  proof -
    have "c' G_number = cp G_number"
      by (rule run_frame [OF decl]) (simp add: groups_var_decl)
    then show ?thesis .
  qed
  have opt_keep: "c' G_list = c1 G_list \<and> c' G_type = c1 G_type"
    using optional_pattern_shape [OF op] by auto
  have A: "(\<exists>a b. c' G_list = Some (a, b) \<and> c' G_type = None \<and> a < b \<and> b \<le> length s
             \<and> b \<le> a + run_of Word s a \<and> collection_before s a \<and> take 1 (drop b s) = ''>'')
          \<or> (\<exists>a b. c' G_type = Some (a, b) \<and> c' G_list = None \<and> a < b \<and> b \<le> length s
             \<and> b \<le> a + run_of Word s a)"
    using type_pattern_shape [OF ty] opt_keep c0 cp_none kj jl
    by (fastforce simp: collection_before_def)
  have B: "c' G_optional = None
          \<or> (\<exists>a. c' G_optional = Some (a, j) \<and> a < j \<and> j \<le> length s
               \<and> (j = a + 1 \<and> take 1 (drop a s) = ''?'' \<or> take 1 (drop (j - 1) s) = ''=''))"
  proof -
    have "c1 G_optional = None"
      using type_pattern_shape [OF ty] c0 cp_none by auto
    then show ?thesis using optional_pattern_shape [OF op] jl by auto
  qed
  have C: "c' G_number = None
          \<or> (\<exists>n b. (i = 0 \<or> take 1 (drop (i - 1) s) = [CHR 0x0A]) \<and> n \<le> run_of Space s i
               \<and> take 13 (drop (i + n) s) = ''@ProtoNumber(''
               \<and> c' G_number = Some (i + n + 13, b) \<and> i + n + 13 < b \<and> b \<le> length s)"
    using prefix_number [OF pre] num pj jl by fastforce
  from A B C ip a0 pj jl show ?thesis
    using run_bounds [OF ty] kj by (intro conjI) simp_all
qed

lemma slash_not_space: "\<not> is_space CHR ''/''"
  by (simp add: is_space_def)

lemma spaces_no_marker: "list_all is_space t \<Longrightarrow> \<not> has_comment_marker t"
  by (induction t rule: has_comment_marker.induct) (auto simp: slash_not_space)

lemma take_run_spaces:
  assumes "n \<le> run_of k s i"
  shows "\<forall>ch \<in> set (take n (drop i s)). in_class k ch"
proof -
  let ?t = "takeWhile (in_class k) (drop i s)"
  have "take n (drop i s) = take n (take (length ?t) (drop i s))"
    using assms by (simp add: run_of_def min_def)
  also have "take (length ?t) (drop i s) = ?t"
    by (rule takeWhile_eq_take [symmetric])
  finally have "set (take n (drop i s)) \<subseteq> set ?t"
    by (simp add: set_take_subset)
  then show ?thesis by (auto dest: set_takeWhileD)
qed

lemma takeWhile_all_append:
  "\<forall>x \<in> set xs. P x \<Longrightarrow> takeWhile P (xs @ ys) = xs @ takeWhile P ys"
  by (induction xs) auto

lemma line_before_spaces:
  assumes bol: "i = 0 \<or> take 1 (drop (i - 1) s) = [CHR 0x0A]"
      and n: "n \<le> run_of Space s i"
  shows "list_all is_space (line_before s (i + n))"
proof -
  let ?P = "\<lambda>ch. ch \<noteq> CHR 0x0A"
  let ?ws = "take n (drop i s)"
  have sp: "\<forall>ch \<in> set ?ws. is_space ch"
    using take_run_spaces [OF n] by simp
  have split: "rev (take (i + n) s) = rev ?ws @ rev (take i s)"
    by (simp add: take_add flip: rev_append)
  have stop: "takeWhile ?P (rev (take i s)) = []"
  proof (cases "i = 0")
    case True
    then show ?thesis by simp
  next
    case False
    with bol have nl: "take 1 (drop (i - 1) s) = [CHR 0x0A]" by simp
    have lt: "i - 1 < length s"
    proof (rule ccontr)
      assume "\<not> i - 1 < length s"
      then have "drop (i - 1) s = []" by simp
      with nl show False by simp
    qed
    then have "drop (i - 1) s = s ! (i - 1) # drop (Suc (i - 1)) s"
      by (rule Cons_nth_drop_Suc [symmetric])
    with nl have ch: "s ! (i - 1) = CHR 0x0A" by simp
    from lt have "take (Suc (i - 1)) s = take (i - 1) s @ [s ! (i - 1)]"
      by (rule take_Suc_conv_app_nth)
    with False have "take i s = take (i - 1) s @ [s ! (i - 1)]" by simp
    then have "rev (take i s) = s ! (i - 1) # rev (take (i - 1) s)" by simp
    with ch show ?thesis by simp
  qed
  have "set (takeWhile ?P (rev (take (i + n) s))) \<subseteq> set ?ws"
  proof (cases "\<forall>ch \<in> set (rev ?ws). ?P ch")
    case True
    then have "takeWhile ?P (rev ?ws @ rev (take i s)) = rev ?ws @ takeWhile ?P (rev (take i s))"
      by (rule takeWhile_all_append)
    with stop split show ?thesis by simp
  next
    case False
    then obtain x where "x \<in> set (rev ?ws)" "\<not> ?P x" by blast
    then have "takeWhile ?P (rev ?ws @ rev (take i s)) = takeWhile ?P (rev ?ws)"
      by (rule takeWhile_append1)
    then have "set (takeWhile ?P (rev (take (i + n) s))) \<subseteq> set (rev ?ws)"
      using split set_takeWhileD [of _ ?P "rev ?ws"] by auto
    then show ?thesis by simp
  qed
  with sp show ?thesis
    unfolding line_before_def list_all_iff by auto
qed

lemma field_shape:
  assumes "field \<in> set (finditer PROTONUMBER_RE defs)"
  shows "m_start field \<le> length defs
       \<and> (m_end field, m_caps field) \<in> set (run defs PROTONUMBER_RE (m_start field, \<lambda>g. None))"
  using finditer_run [OF assms] .

lemma group_text_None: "m_caps m g = None \<Longrightarrow> group_text s m g = None"
  by (simp add: group_text_def)

lemma group_text_Some:
  "m_caps m g = Some (a, b) \<Longrightarrow> a < b \<Longrightarrow> b \<le> length s \<Longrightarrow>
     group_text s m g = Some (take (b - a) (drop a s)) \<and> take (b - a) (drop a s) \<noteq> []"
  by (auto simp: group_text_def)

lemma truthy_group:
  "m_caps m g = Some (a, b) \<Longrightarrow> a < b \<Longrightarrow> b \<le> length s \<Longrightarrow> truthy (group_text s m g)"
  by (auto simp: group_text_def truthy_def)

lemma not_truthy_group: "m_caps m g = None \<Longrightarrow> \<not> truthy (group_text s m g)"
  by (simp add: group_text_def truthy_def)

lemma dict_get_mapper: "dict_get DATA_TYPES (Some t) (Some t) = Some (spec_type_mapper t)"
  by (simp add: dict_get_def DATA_TYPES_def spec_type_mapper_def)

lemma cardinality_groups:
  assumes "field \<in> set (finditer PROTONUMBER_RE defs)"
  shows "(repeated_arg defs field = ''repeated'' \<longleftrightarrow> m_caps field G_list \<noteq> None)
       \<and> (repeated_arg defs field = ''optional'' \<longleftrightarrow>
            m_caps field G_list = None \<and> m_caps field G_optional \<noteq> None)
       \<and> (repeated_arg defs field = ''required'' \<longleftrightarrow>
            m_caps field G_list = None \<and> m_caps field G_optional = None)
       \<and> (\<forall>a b. m_caps field G_list = Some (a, b) \<longrightarrow>
            collection_before defs a \<and> take 1 (drop b defs) = ''>'')
       \<and> (\<forall>a b. m_caps field G_optional = Some (a, b) \<longrightarrow>
            take (b - a) (drop a defs) = ''?'' \<or> take 1 (drop (b - 1) defs) = ''='')"
proof -
  note sh = match_shape [OF field_shape [OF assms, THEN conjunct2] field_shape [OF assms, THEN conjunct1]]
  have L: "truthy (group_text defs field G_list) \<longleftrightarrow> m_caps field G_list \<noteq> None"
    using sh by (auto simp: truthy_group not_truthy_group)
  have O: "truthy (group_text defs field G_optional) \<longleftrightarrow> m_caps field G_optional \<noteq> None"
    using sh by (auto simp: truthy_group not_truthy_group)
  have T: "\<forall>a b. m_caps field G_list = Some (a, b) \<longrightarrow>
            collection_before defs a \<and> take 1 (drop b defs) = ''>''"
    using sh by auto
  have Q: "\<forall>a b. m_caps field G_optional = Some (a, b) \<longrightarrow>
            take (b - a) (drop a defs) = ''?'' \<or> take 1 (drop (b - 1) defs) = ''=''"
    using sh by auto
  have C: "(repeated_arg defs field = ''repeated'' \<longleftrightarrow> m_caps field G_list \<noteq> None)
       \<and> (repeated_arg defs field = ''optional'' \<longleftrightarrow>
            m_caps field G_list = None \<and> m_caps field G_optional \<noteq> None)
       \<and> (repeated_arg defs field = ''required'' \<longleftrightarrow>
            m_caps field G_list = None \<and> m_caps field G_optional = None)"
    by (cases "m_caps field G_list"; cases "m_caps field G_optional";
        simp add: repeated_arg_def L O)
  from C T Q show ?thesis by (intro conjI) blast+
qed

subsection \<open>The first match\<close>

text \<open>
  A match is the first result of the matcher. The following facts follow the first result
  through the pattern: the type starts right after the white space behind the colon, the
  collection alternative is taken whenever the text has the collection shape, and group
  \<^verbatim>\<open>optional\<close> takes part whenever a nullable marker or a default follows the type
  identifier.
\<close>

declare run.simps [simp del]

lemma nonempty_member: "l \<noteq> [] \<Longrightarrow> \<exists>x. x \<in> set l"
  by (cases l) auto

lemma concat_map_head:
  "concat (map f l) = x # xs \<Longrightarrow> \<exists>y \<in> set l. \<exists>ys. f y = x # ys"
proof (induction l)
  case Nil
  then show ?case by simp
next
  case (Cons a l)
  show ?case
  proof (cases "f a")
    case Nil
    with Cons show ?thesis by simp
  next
    case (Cons b bs)
    with Cons.prems show ?thesis by simp
  qed
qed

lemma run_Seq_head:
  "run s (Seq r1 r2) st = x # xs \<Longrightarrow> \<exists>st1 \<in> set (run s r1 st). \<exists>ys. run s r2 st1 = x # ys"
  using concat_map_head [of "run s r2" "run s r1 st" x xs] by (simp add: run.simps)

lemma match_at_head:
  "match_at r s k = Some m \<Longrightarrow> \<exists>rest. run s r (k, \<lambda>g. None) = (m_end m, m_caps m) # rest"
  by (auto simp: match_at_def split: list.splits)

lemma take1_nth: "take 1 (drop i s) = [ch] \<Longrightarrow> i < length s \<and> s ! i = ch"
proof -
  assume h: "take 1 (drop i s) = [ch]"
  have lt: "i < length s"
  proof (rule ccontr)
    assume "\<not> i < length s"
    then have "drop i s = []" by simp
    with h show False by simp
  qed
  then have "drop i s = s ! i # drop (Suc i) s"
    by (rule Cons_nth_drop_Suc [symmetric])
  with h lt show ?thesis by simp
qed

lemma class_stops:
  assumes "i \<le> b" "b \<le> i + run_of k s i" "take 1 (drop b s) = [ch]" "\<not> in_class k ch"
  shows "b = i + run_of k s i"
proof (rule ccontr)
  assume "b \<noteq> i + run_of k s i"
  with assms(2) have "b < i + run_of k s i" by simp
  with assms(1) have "in_class k (s ! b)" by (rule run_of_class)
  with take1_nth [OF assms(3)] assms(4) show False by simp
qed

lemma word_not_space: "is_word ch \<Longrightarrow> \<not> is_space ch"
  by (auto simp: is_word_def is_space_def Let_def)

lemma not_word_gt: "\<not> is_word CHR ''>''" and not_space_eq: "\<not> is_space CHR ''=''"
  by (simp_all add: is_word_def is_space_def)

lemma run_SeqI:
  "(k, c1) \<in> set (run s r1 st) \<Longrightarrow> x \<in> set (run s r2 (k, c1)) \<Longrightarrow> x \<in> set (run s (Seq r1 r2) st)"
  by (auto simp: run_Seq_iff)

lemma take_split_lit:
  assumes "take (n + m) (drop i s) = u @ v" and "length u = n"
  shows "take n (drop i s) = u \<and> take m (drop (i + n) s) = v"
proof -
  have "drop n (drop i s) = drop (i + n) s"
    by (simp add: add.commute)
  then have "take (n + m) (drop i s) = take n (drop i s) @ take m (drop (i + n) s)"
    by (simp only: take_add)
  with assms(1) have eq: "take n (drop i s) @ take m (drop (i + n) s) = u @ v" by simp
  have "length (take n (drop i s)) \<le> n" by simp
  have "length (u @ v) = length (take (n + m) (drop i s))" using assms(1) by simp
  then have "n \<le> length (drop i s)" using assms(2) by (simp add: min_def split: if_splits)
  then have "length (take n (drop i s)) = length u" using assms(2) by simp
  with eq show ?thesis by simp
qed

lemma list_branch_nonempty:
  "run s (Seq (Alt (Lit ''List'') (Lit ''Set''))
            (Seq (Lit ''<'') (Seq (Group G_list (Plus Word)) (Lit ''>'')))) (p, c) \<noteq> []
   \<longleftrightarrow> collection_at s p"
  (is "?run \<noteq> [] \<longleftrightarrow> _")
proof
  assume "?run \<noteq> []"
  then obtain k c1 where "(k, c1) \<in> set ?run" using nonempty_member by fastforce
  then consider
    (list) b where "p + 5 < b" "b \<le> p + 5 + run_of Word s (p + 5)"
      "take 4 (drop p s) = ''List''" "take 1 (drop (p + 4) s) = ''<''" "take 1 (drop b s) = ''>''"
  | (set) b where "p + 4 < b" "b \<le> p + 4 + run_of Word s (p + 4)"
      "take 3 (drop p s) = ''Set''" "take 1 (drop (p + 3) s) = ''<''" "take 1 (drop b s) = ''>''"
    by (auto simp: run_rules run_lits add.commute add.left_commute simp del: run.simps)
  then show "collection_at s p"
  proof cases
    case list
    from take_lit_append [OF list(3) list(4)] have l: "take 5 (drop p s) = ''List<''" by simp
    have "b = p + 5 + run_of Word s (p + 5)"
      using list(1,2,5) by (intro class_stops [where ch = "CHR ''>''"]) (simp_all add: not_word_gt)
    with list l show ?thesis by (simp add: collection_at_def element_shape_def)
  next
    case set
    from take_lit_append [OF set(3) set(4)] have l: "take 4 (drop p s) = ''Set<''" by simp
    have "b = p + 4 + run_of Word s (p + 4)"
      using set(1,2,5) by (intro class_stops [where ch = "CHR ''>''"]) (simp_all add: not_word_gt)
    with set l show ?thesis by (simp add: collection_at_def element_shape_def)
  qed
next
  assume "collection_at s p"
  then consider
    (list) "take 5 (drop p s) = ''List<''" "element_shape s (p + 5)"
  | (set) "take 4 (drop p s) = ''Set<''" "element_shape s (p + 4)"
    by (auto simp: collection_at_def)
  then have "\<exists>x. x \<in> set ?run"
  proof cases
    case list
    from take_split_lit [of 4 1 p s "''List''" "''<''"] list(1)
    have "take 4 (drop p s) = ''List''" "take 1 (drop (p + 4) s) = ''<''" by simp_all
    let ?b = "p + 5 + run_of Word s (p + 5)"
    have 1: "(p + 4, c) \<in> set (run s (Alt (Lit ''List'') (Lit ''Set'')) (p, c))"
      using \<open>take 4 (drop p s) = ''List''\<close> by (simp add: run_rules run_lits)
    have 2: "(p + 5, c) \<in> set (run s (Lit ''<'') (p + 4, c))"
      using \<open>take 1 (drop (p + 4) s) = ''<''\<close> by (simp add: run_lits)
    have 3: "(?b, c(G_list := Some (p + 5, ?b))) \<in> set (run s (Group G_list (Plus Word)) (p + 5, c))"
      using list(2) by (simp add: run_rules element_shape_def)
    have 4: "(?b + 1, c(G_list := Some (p + 5, ?b)))
        \<in> set (run s (Lit ''>'') (?b, c(G_list := Some (p + 5, ?b))))"
      using list(2) by (simp add: run_lits element_shape_def)
    from 1 2 3 4 have "(?b + 1, c(G_list := Some (p + 5, ?b))) \<in> set ?run"
      by (meson run_SeqI)
    then show ?thesis by blast
  next
    case set
    from take_split_lit [of 3 1 p s "''Set''" "''<''"] set(1)
    have "take 3 (drop p s) = ''Set''" "take 1 (drop (p + 3) s) = ''<''" by simp_all
    let ?b = "p + 4 + run_of Word s (p + 4)"
    have 1: "(p + 3, c) \<in> set (run s (Alt (Lit ''List'') (Lit ''Set'')) (p, c))"
      using \<open>take 3 (drop p s) = ''Set''\<close> by (simp add: run_rules run_lits)
    have 2: "(p + 4, c) \<in> set (run s (Lit ''<'') (p + 3, c))"
      using \<open>take 1 (drop (p + 3) s) = ''<''\<close> by (simp add: run_lits)
    have 3: "(?b, c(G_list := Some (p + 4, ?b))) \<in> set (run s (Group G_list (Plus Word)) (p + 4, c))"
      using set(2) by (simp add: run_rules element_shape_def)
    have 4: "(?b + 1, c(G_list := Some (p + 4, ?b)))
        \<in> set (run s (Lit ''>'') (?b, c(G_list := Some (p + 4, ?b))))"
      using set(2) by (simp add: run_lits element_shape_def)
    from 1 2 3 4 have "(?b + 1, c(G_list := Some (p + 4, ?b))) \<in> set ?run"
      by (meson run_SeqI)
    then show ?thesis by blast
  qed
  then show "?run \<noteq> []" by auto
qed

lemma optional_group_nonempty:
  "run s (Group G_optional
            (Alt (Lit ''?'')
                 (Group G_6 (Seq (Opt (Lit '':'')) (Seq (Plus Space) (Lit ''='')))))) (k, c) \<noteq> []
   \<longleftrightarrow> nullable_or_default_at s k"
  (is "?run \<noteq> [] \<longleftrightarrow> _")
proof
  assume "?run \<noteq> []"
  then obtain j c1 where "(j, c1) \<in> set ?run" using nonempty_member by fastforce
  then consider
    (mark) "take 1 (drop k s) = ''?''"
  | (colon) m where "take 1 (drop k s) = '':''" "k + 1 < m" "m \<le> k + 1 + run_of Space s (k + 1)"
      "take 1 (drop m s) = ''=''"
  | (plain) m where "k < m" "m \<le> k + run_of Space s k" "take 1 (drop m s) = ''=''"
    by (auto simp: run_rules run_lits add.commute add.left_commute)
  then show "nullable_or_default_at s k"
  proof cases
    case mark
    then show ?thesis by (simp add: nullable_or_default_at_def)
  next
    case colon
    have "m = k + 1 + run_of Space s (k + 1)"
      using colon(2,3,4) by (intro class_stops [where ch = "CHR ''=''"]) (simp_all add: not_space_eq)
    with colon show ?thesis by (simp add: nullable_or_default_at_def)
  next
    case plain
    have m: "m = k + run_of Space s k"
      using plain by (intro class_stops [where ch = "CHR ''=''"]) (simp_all add: not_space_eq)
    have "in_class Space (s ! k)"
      using plain(1,2) by (intro run_of_class [of k k]) simp_all
    then have "take 1 (drop k s) \<noteq> '':''"
      using take1_nth [of k s "CHR '':''"] by (auto simp: is_space_def)
    with plain m show ?thesis by (simp add: nullable_or_default_at_def)
  qed
next
  assume h: "nullable_or_default_at s k"
  let ?alt = "Alt (Lit ''?'') (Group G_6 (Seq (Opt (Lit '':'')) (Seq (Plus Space) (Lit ''=''))))"
  have "\<exists>x. x \<in> set (run s ?alt (k, c))"
  proof (cases "take 1 (drop k s) = ''?''")
    case True
    then have "(k + 1, c) \<in> set (run s ?alt (k, c))" by (simp add: run_rules run_lits)
    then show ?thesis by blast
  next
    case False
    define e where "e = (if take 1 (drop k s) = '':'' then k + 1 else k)"
    from h False have sp: "0 < run_of Space s e" and eq: "take 1 (drop (e + run_of Space s e) s) = ''=''"
      by (simp_all add: nullable_or_default_at_def e_def Let_def)
    have 1: "(e, c) \<in> set (run s (Opt (Lit '':'')) (k, c))"
      by (auto simp: run_rules run_lits e_def)
    have 2: "(e + run_of Space s e, c) \<in> set (run s (Plus Space) (e, c))"
      using sp by (simp add: run_rules)
    have 3: "(e + run_of Space s e + 1, c) \<in> set (run s (Lit ''='') (e + run_of Space s e, c))"
      using eq by (simp add: run_lits)
    from 1 2 3 have "(e + run_of Space s e + 1, c)
        \<in> set (run s (Seq (Opt (Lit '':'')) (Seq (Plus Space) (Lit ''=''))) (k, c))"
      by (meson run_SeqI)
    then have "(e + run_of Space s e + 1, c(G_6 := Some (k, e + run_of Space s e + 1)))
        \<in> set (run s ?alt (k, c))"
      by (auto simp: run_Alt_iff run_Group_iff)
    then show ?thesis by blast
  qed
  then obtain j c1 where "(j, c1) \<in> set (run s ?alt (k, c))" by auto
  then have "(j, c1(G_optional := Some (k, j))) \<in> set ?run"
    by (auto simp: run_Group_iff)
  then show "?run \<noteq> []" by auto
qed

lemma run_Plus_head:
  "0 < run_of k s i \<Longrightarrow> \<exists>rest. run s (Plus k) (i, c) = (i + run_of k s i, c) # rest"
  by (simp add: run.simps)

lemma run_Seq_head_pair:
  "run s (Seq r1 r2) st = x # xs \<Longrightarrow>
     \<exists>k c1 ys. (k, c1) \<in> set (run s r1 st) \<and> run s r2 (k, c1) = x # ys"
  using run_Seq_head [of s r1 r2 st x xs] by auto

lemma var_decl_head:
  assumes "run s var_decl (p, cp) = x # xs"
  shows "\<exists>n0 n1 a0 ys. n0 < n1 \<and> n1 + 1 < a0 \<and> a0 \<le> n1 + 1 + run_of Space s (n1 + 1)
           \<and> run s (Seq type_pattern optional_pattern) (a0, cp(G_name := Some (n0, n1))) = x # ys"
proof -
  from run_Seq_head_pair [OF assms [unfolded var_decl_def]] obtain k1 c1 ys1
    where m1: "(k1, c1) \<in> set (run s (Lit ''va'') (p, cp))"
      and r1: "run s (Seq (Chars ''rl'') (Seq (Plus Space) (Seq (Group G_name (Plus Word))
          (Seq (Lit '':'') (Seq (Plus Space) (Seq type_pattern optional_pattern)))))) (k1, c1) = x # ys1"
    by blast
  from m1 have c1: "c1 = cp" by (simp add: run_lits)
  from run_Seq_head_pair [OF r1] obtain k2 c2 ys2
    where m2: "(k2, c2) \<in> set (run s (Chars ''rl'') (k1, c1))"
      and r2: "run s (Seq (Plus Space) (Seq (Group G_name (Plus Word))
          (Seq (Lit '':'') (Seq (Plus Space) (Seq type_pattern optional_pattern))))) (k2, c2) = x # ys2"
    by blast
  from m2 c1 have c2: "c2 = cp" by (simp add: run_rules)
  from run_Seq_head_pair [OF r2] obtain n0 c3 ys3
    where m3: "(n0, c3) \<in> set (run s (Plus Space) (k2, c2))"
      and r3: "run s (Seq (Group G_name (Plus Word))
          (Seq (Lit '':'') (Seq (Plus Space) (Seq type_pattern optional_pattern)))) (n0, c3) = x # ys3"
    by blast
  from m3 c2 have c3: "c3 = cp" by (simp add: run_rules)
  from run_Seq_head_pair [OF r3] obtain n1 c4 ys4
    where m4: "(n1, c4) \<in> set (run s (Group G_name (Plus Word)) (n0, c3))"
      and r4: "run s (Seq (Lit '':'') (Seq (Plus Space) (Seq type_pattern optional_pattern))) (n1, c4) = x # ys4"
    by blast
  from m4 c3 have c4: "c4 = cp(G_name := Some (n0, n1))" and n: "n0 < n1"
    by (auto simp: run_rules)
  from run_Seq_head_pair [OF r4] obtain k5 c5 ys5
    where m5: "(k5, c5) \<in> set (run s (Lit '':'') (n1, c4))"
      and r5: "run s (Seq (Plus Space) (Seq type_pattern optional_pattern)) (k5, c5) = x # ys5"
    by blast
  from m5 c4 have k5: "k5 = n1 + 1" and c5: "c5 = cp(G_name := Some (n0, n1))"
    by (simp_all add: run_lits)
  from run_Seq_head_pair [OF r5] obtain a0 c6 ys6
    where m6: "(a0, c6) \<in> set (run s (Plus Space) (k5, c5))"
      and r6: "run s (Seq type_pattern optional_pattern) (a0, c6) = x # ys6"
    by blast
  from m6 k5 c5 have c6: "c6 = cp(G_name := Some (n0, n1))"
    and a0: "n1 + 1 < a0" "a0 \<le> n1 + 1 + run_of Space s (n1 + 1)"
    by (auto simp: run_rules)
  from n a0 r6 c6 show ?thesis by blast
qed

lemma first_char: "take n (drop i s) = ch # rest \<Longrightarrow> i < length s \<and> s ! i = ch"
proof -
  assume h: "take n (drop i s) = ch # rest"
  have lt: "i < length s"
  proof (rule ccontr)
    assume "\<not> i < length s"
    then have "drop i s = []" by simp
    with h show False by simp
  qed
  then have "drop i s = s ! i # drop (Suc i) s"
    by (rule Cons_nth_drop_Suc [symmetric])
  with h lt show ?thesis by (cases n) simp_all
qed

lemma type_optional_head:
  assumes "run s (Seq type_pattern optional_pattern) (a0, c0) = x # ys"
  shows "\<exists>y l zs. run s type_pattern (a0, c0) = y # l \<and> run s optional_pattern y = x # zs"
proof (cases "run s type_pattern (a0, c0)")
  case Nil
  with assms show ?thesis by (simp add: run.simps)
next
  case (Cons y l)
  have "run s optional_pattern y \<noteq> []"
    by (simp add: optional_pattern_def run.simps)
  then obtain z zs where z: "run s optional_pattern y = z # zs"
    by (cases "run s optional_pattern y") auto
  with assms Cons have "z = x" by (simp add: run.simps)
  with Cons z show ?thesis by simp
qed

lemma type_start_is_word:
  assumes "(k, c1) \<in> set (run s type_pattern (a0, c))"
  shows "is_word (s ! a0)"
proof -
  from type_pattern_cases [OF assms] consider
    (list) "take 4 (drop a0 s) = ''List''" | (set) "take 3 (drop a0 s) = ''Set''"
  | (type) "a0 < k" "k \<le> a0 + run_of Word s a0"
    by blast
  then show ?thesis
  proof cases
    case list
    from first_char [of 4 a0 s "CHR ''L''" "''ist''"] list have "s ! a0 = CHR ''L''" by simp
    then show ?thesis by (simp add: is_word_def)
  next
    case set
    from first_char [of 3 a0 s "CHR ''S''" "''et''"] set have "s ! a0 = CHR ''S''" by simp
    then show ?thesis by (simp add: is_word_def)
  next
    case type
    then have "in_class Word (s ! a0)" by (intro run_of_class [of a0 a0]) simp_all
    then show ?thesis by simp
  qed
qed

lemma list_branch_sets_list:
  assumes "(k, c1) \<in> set (run s (Seq (Alt (Lit ''List'') (Lit ''Set''))
            (Seq (Lit ''<'') (Seq (Group G_list (Plus Word)) (Lit ''>'')))) (a0, c))"
  shows "c1 G_list \<noteq> None"
  using assms by (auto simp: run_rules run_lits)

lemma type_group_head:
  assumes "run s (Group G_type (Plus Word)) (a0, c) = y # l"
  shows "y = (a0 + run_of Word s a0, c(G_type := Some (a0, a0 + run_of Word s a0)))"
proof (cases "run_of Word s a0")
  case 0
  with assms show ?thesis by (simp add: run.simps)
next
  case (Suc n)
  with assms show ?thesis by (auto simp: run.simps)
qed

lemma match_cardinality:
  assumes f: "field \<in> set (finditer PROTONUMBER_RE defs)"
  shows "m_caps field G_name \<noteq> None
       \<and> repeated_arg defs field = shape_cardinality defs (type_position defs field)"
proof -
  note card = cardinality_groups [OF f]
  from finditer_from_sound [of field PROTONUMBER_RE defs 0] f obtain i
    where m: "match_at PROTONUMBER_RE defs i = Some field"
    by (auto simp: finditer_def)
  from match_at_head [OF m] obtain rest
    where r: "run defs PROTONUMBER_RE (i, \<lambda>g. None) = (m_end field, m_caps field) # rest"
    by blast
  let ?x = "(m_end field, m_caps field)"
  from run_Seq_head_pair [OF r [unfolded PROTONUMBER_RE_def]] obtain p cp ys
    where pre: "(p, cp) \<in> set (run defs (Alt annotation (Alt class_head Bol)) (i, \<lambda>g. None))"
      and d: "run defs var_decl (p, cp) = ?x # ys"
    by blast
  have cp: "cp G_list = None" "cp G_optional = None"
    using prefix_number [OF pre] by auto
  from var_decl_head [OF d] obtain n0 n1 a0 ys'
    where a0: "n1 + 1 < a0" "a0 \<le> n1 + 1 + run_of Space defs (n1 + 1)"
      and t: "run defs (Seq type_pattern optional_pattern) (a0, cp(G_name := Some (n0, n1))) = ?x # ys'"
    by blast
  let ?c0 = "cp(G_name := Some (n0, n1))"
  from type_optional_head [OF t] obtain y l zs
    where ty: "run defs type_pattern (a0, ?c0) = y # l"
      and op: "run defs optional_pattern y = ?x # zs"
    by blast
  obtain k c1 where y: "y = (k, c1)" by (cases y)
  have ymem: "(k, c1) \<in> set (run defs type_pattern (a0, ?c0))"
    using ty y by simp
  have xmem: "?x \<in> set (run defs optional_pattern (k, c1))"
    using op y by simp
  have c1_name: "c1 G_name = Some (n0, n1)"
    using run_frame [OF ymem, of G_name] by (simp add: type_pattern_def)
  have name: "m_caps field G_name = Some (n0, n1)"
    using run_frame [OF xmem, of G_name] c1_name by (simp add: optional_pattern_def)
  have pos: "a0 = n1 + 1 + run_of Space defs (n1 + 1)"
  proof (rule ccontr)
    assume "a0 \<noteq> n1 + 1 + run_of Space defs (n1 + 1)"
    with a0 have "a0 < n1 + 1 + run_of Space defs (n1 + 1)" by simp
    then have "in_class Space (defs ! a0)"
      using a0(1) by (intro run_of_class [of "n1 + 1"]) simp_all
    with type_start_is_word [OF ymem] word_not_space show False by auto
  qed
  have tp: "type_position defs field = a0"
    using name pos by (simp add: type_position_def)
  let ?LP = "Seq (Alt (Lit ''List'') (Lit ''Set''))
            (Seq (Lit ''<'') (Seq (Group G_list (Plus Word)) (Lit ''>'')))"
  let ?GT = "Group G_type (Plus Word)"
  let ?GO = "Group G_optional
            (Alt (Lit ''?'')
                 (Group G_6 (Seq (Opt (Lit '':'')) (Seq (Plus Space) (Lit ''='')))))"
  have tsplit: "run defs type_pattern (a0, ?c0) = run defs ?LP (a0, ?c0) @ run defs ?GT (a0, ?c0)"
    by (simp add: type_pattern_def run.simps)
  have osplit: "run defs optional_pattern (k, c1) = run defs ?GO (k, c1) @ [(k, c1)]"
    by (simp add: optional_pattern_def run.simps)
  have keep_list: "m_caps field G_list = c1 G_list"
    using run_frame [OF xmem, of G_list] by (simp add: optional_pattern_def)
  show ?thesis
  proof (cases "collection_at defs a0")
    case True
    then have ne: "run defs ?LP (a0, ?c0) \<noteq> []"
      by (simp add: list_branch_nonempty)
    with tsplit ty have "y = hd (run defs ?LP (a0, ?c0))" by (cases "run defs ?LP (a0, ?c0)") auto
    with ne y have "(k, c1) \<in> set (run defs ?LP (a0, ?c0))" by (metis hd_in_set)
    then have "c1 G_list \<noteq> None" by (rule list_branch_sets_list)
    with keep_list card have "repeated_arg defs field = ''repeated''" by simp
    with True tp name show ?thesis by (simp add: shape_cardinality_def)
  next
    case False
    then have e: "run defs ?LP (a0, ?c0) = []"
      using list_branch_nonempty [of defs a0 ?c0] by blast
    with tsplit ty have "run defs ?GT (a0, ?c0) = y # l" by simp
    from type_group_head [OF this] y
    have k: "k = a0 + run_of Word defs a0"
      and c1: "c1 = ?c0(G_type := Some (a0, a0 + run_of Word defs a0))" by simp_all
    from c1 cp have c1_none: "c1 G_list = None" "c1 G_optional = None" by simp_all
    with keep_list have nl: "m_caps field G_list = None" by simp
    show ?thesis
    proof (cases "nullable_or_default_at defs k")
      case True
      then have ne: "run defs ?GO (k, c1) \<noteq> []"
        by (simp add: optional_group_nonempty)
      with osplit op y have "?x = hd (run defs ?GO (k, c1))"
        by (cases "run defs ?GO (k, c1)") auto
      with ne have "?x \<in> set (run defs ?GO (k, c1))" by (metis hd_in_set)
      then have "m_caps field G_optional \<noteq> None" by (auto simp: run_Group_iff)
      with nl card have "repeated_arg defs field = ''optional''" by simp
      with True False tp name k show ?thesis by (simp add: shape_cardinality_def)
    next
      case no: False
      then have "run defs ?GO (k, c1) = []"
        using optional_group_nonempty [of defs k c1] by blast
      with osplit op y have "?x = (k, c1)" by simp
      with c1_none have "m_caps field G_optional = None" by simp
      with nl card have "repeated_arg defs field = ''required''" by simp
      with no False tp name k show ?thesis by (simp add: shape_cardinality_def)
    qed
  qed
qed

subsection \<open>Tag numbers\<close>

text \<open>
  C2. The claim: the emitted tag number is the annotation's value or 1, and for a class
  whose name begins with \<^verbatim>\<open>Broken\<close> that value plus one, so that an absent tag
  yields 2. For the class \<^verbatim>\<open>BrokenFoo\<close> with the body \<^verbatim>\<open>val x: Int\<close> the script
  evaluates \<^verbatim>\<open>int(None) + 1\<close> and \<^verbatim>\<open>parse_model\<close> ends in TypeError: no line is
  emitted. The sibling paths do what the claim says: an explicit tag 4 of a
  \<^verbatim>\<open>Broken\<close> class is emitted as 5, an absent tag of another class as 1.
\<close>

theorem broken_without_annotation_raises:
  "parse_model [(''BrokenFoo'', ''val x: Int'')] = Inl TypeError
   \<and> parse_model [(''BrokenFoo'', ''@ProtoNumber(4) val x: Int'')]
       = Inr [''message BrokenFoo {'', ''  required int32 x = 5;'', ''}'' @ [CHR 0x0A]]
   \<and> parse_model [(''Foo'', ''val x: Int'')]
       = Inr [''message Foo {'', ''  required int32 x = 1;'', ''}'' @ [CHR 0x0A]]"
  by code_simp

subsection \<open>Cardinality\<close>

text \<open>
  C3, as the claim states it, would have a field be \<^verbatim>\<open>optional\<close> exactly when it
  carries a nullable marker or a default, also when it is a collection. The body
  \<^verbatim>\<open>val tags: List<String>?\<close> has one recognized field, its nullable marker is
  matched (group \<^verbatim>\<open>optional\<close> is \<^verbatim>\<open>?\<close>), and its cardinality is
  \<^verbatim>\<open>repeated\<close>, not \<^verbatim>\<open>optional\<close>. A default that does not directly follow the
  type identifier is not seen either: \<^verbatim>\<open>val extra: Map<String, Int> = mapOf()\<close> is
  \<^verbatim>\<open>required\<close>.
\<close>

theorem nullable_collection_counterexample:
  "map (\<lambda>field. group_text ''val tags: List<String>?'' field G_optional)
       (finditer PROTONUMBER_RE ''val tags: List<String>?'') = [Some ''?'']
   \<and> map (repeated_arg ''val tags: List<String>?'')
       (finditer PROTONUMBER_RE ''val tags: List<String>?'') = [''repeated'']
   \<and> ''repeated'' \<noteq> ''optional''
   \<and> parse_model [(''Foo'', ''val tags: List<String>?'')]
       = Inr [''message Foo {'', ''  repeated string tags = 1;'', ''}'' @ [CHR 0x0A]]
   \<and> parse_model [(''Foo'', ''val extra: Map<String, Int> = mapOf()'')]
       = Inr [''message Foo {'', ''  required Map extra = 1;'', ''}'' @ [CHR 0x0A]]"
  by code_simp

text \<open>
  C3, amended. For every field the pattern recognizes, the cardinality is
  \<^verbatim>\<open>repeated\<close> exactly when the declared type is a collection (\<^verbatim>\<open>List<T>\<close> or
  \<^verbatim>\<open>Set<T>\<close> with \<^verbatim>\<open>T\<close> an identifier); it is \<^verbatim>\<open>optional\<close> exactly when the
  declared type is no collection and its identifier is directly followed by the nullable
  marker \<^verbatim>\<open>?\<close> or by a default (an optional colon, white space and \<^verbatim>\<open>=\<close>); it is
  \<^verbatim>\<open>required\<close> in every other case. A nullable or defaulted collection is
  \<^verbatim>\<open>repeated\<close>.
\<close>

theorem cardinality_by_shape:
  assumes "field \<in> set (finditer PROTONUMBER_RE defs)"
  shows "m_caps field G_name \<noteq> None
       \<and> (repeated_arg defs field = ''repeated'' \<longleftrightarrow>
            collection_at defs (type_position defs field))
       \<and> (repeated_arg defs field = ''optional'' \<longleftrightarrow>
            \<not> collection_at defs (type_position defs field)
            \<and> nullable_or_default_at defs
                 (type_position defs field + run_of Word defs (type_position defs field)))
       \<and> (repeated_arg defs field = ''required'' \<longleftrightarrow>
            \<not> collection_at defs (type_position defs field)
            \<and> \<not> nullable_or_default_at defs
                 (type_position defs field + run_of Word defs (type_position defs field)))"
  using match_cardinality [OF assms] by (simp add: shape_cardinality_def)

theorem cardinality_by_shape_witness:
  "collection_at ''val tags: List<String>?'' (type_position ''val tags: List<String>?''
       (hd (finditer PROTONUMBER_RE ''val tags: List<String>?'')))
   \<and> repeated_arg ''val tags: List<String>?'' (hd (finditer PROTONUMBER_RE ''val tags: List<String>?''))
       = ''repeated''
   \<and> type_position ''val order: Long = 0'' (hd (finditer PROTONUMBER_RE ''val order: Long = 0'')) = 11
   \<and> nullable_or_default_at ''val order: Long = 0'' 15
   \<and> repeated_arg ''val order: Long = 0'' (hd (finditer PROTONUMBER_RE ''val order: Long = 0''))
       = ''optional''
   \<and> repeated_arg ''val name: String'' (hd (finditer PROTONUMBER_RE ''val name: String''))
       = ''required''"
proof -
  let ?d1 = "''val tags: List<String>?''" and ?d2 = "''val order: Long = 0''" and ?d3 = "''val name: String''"
  let ?f1 = "hd (finditer PROTONUMBER_RE ?d1)" and ?f2 = "hd (finditer PROTONUMBER_RE ?d2)"
    and ?f3 = "hd (finditer PROTONUMBER_RE ?d3)"
  have ne: "finditer PROTONUMBER_RE ?d1 \<noteq> []" "finditer PROTONUMBER_RE ?d2 \<noteq> []"
    "finditer PROTONUMBER_RE ?d3 \<noteq> []" by code_simp+
  have c1: "collection_at ?d1 (type_position ?d1 ?f1)" by code_simp
  have p2: "type_position ?d2 ?f2 = 11" by code_simp
  have c2: "\<not> collection_at ?d2 11" "run_of Word ?d2 11 = 4" "nullable_or_default_at ?d2 15"
    by code_simp+
  have p3: "type_position ?d3 ?f3 = 10" by code_simp
  have c3: "\<not> collection_at ?d3 10" "run_of Word ?d3 10 = 6" "\<not> nullable_or_default_at ?d3 16"
    by code_simp+
  from cardinality_by_shape [of ?f1 ?d1] ne c1
  have "repeated_arg ?d1 ?f1 = ''repeated''" by simp
  moreover from cardinality_by_shape [of ?f2 ?d2] ne p2 c2
  have "repeated_arg ?d2 ?f2 = ''optional''" by simp
  moreover from cardinality_by_shape [of ?f3 ?d3] ne p3 c3
  have "repeated_arg ?d3 ?f3 = ''required''" by simp
  ultimately show ?thesis using c1 p2 c2 by simp
qed

subsection \<open>Type mapping\<close>

lemma identifier_take: "take (run_of Word s a) (drop a s) = identifier_at s a"
  unfolding run_of_def identifier_at_def by (rule takeWhile_eq_take [symmetric])

lemma identifier_nonempty: "0 < run_of Word s a \<Longrightarrow> identifier_at s a \<noteq> []"
  by (auto simp: run_of_def identifier_at_def)

lemma group_text_span:
  "m_caps m g = Some (a, a + run_of Word s a) \<Longrightarrow> group_text s m g = Some (identifier_at s a)"
  by (simp add: group_text_def identifier_take)

lemma list_branch_span:
  assumes "(k, c1) \<in> set (run s (Seq (Alt (Lit ''List'') (Lit ''Set''))
            (Seq (Lit ''<'') (Seq (Group G_list (Plus Word)) (Lit ''>'')))) (p, c))"
  shows "c1 = c(G_list := Some (element_position s p,
                   element_position s p + run_of Word s (element_position s p)))
       \<and> 0 < run_of Word s (element_position s p)"
proof -
  from assms consider
    (list) b where "c1 = c(G_list := Some (p + 5, b))" "p + 5 < b" "b \<le> p + 5 + run_of Word s (p + 5)"
      "take 4 (drop p s) = ''List''" "take 1 (drop (p + 4) s) = ''<''" "take 1 (drop b s) = ''>''"
  | (set) b where "c1 = c(G_list := Some (p + 4, b))" "p + 4 < b" "b \<le> p + 4 + run_of Word s (p + 4)"
      "take 3 (drop p s) = ''Set''" "take 1 (drop (p + 3) s) = ''<''" "take 1 (drop b s) = ''>''"
    by (auto simp: run_rules run_lits add.commute add.left_commute)
  then show ?thesis
  proof cases
    case list
    from take_lit_append [OF list(4) list(5)] have l: "take 5 (drop p s) = ''List<''" by simp
    have "b = p + 5 + run_of Word s (p + 5)"
      using list(2,3,6) by (intro class_stops [where ch = "CHR ''>''"]) (simp_all add: not_word_gt)
    with list l show ?thesis by (simp add: element_position_def)
  next
    case set
    have "take 5 (drop p s) \<noteq> ''List<''"
    proof
      assume "take 5 (drop p s) = ''List<''"
      then have "take 3 (take 5 (drop p s)) = ''Lis''" by simp
      then have "take 3 (drop p s) = ''Lis''" by (simp add: min_def)
      with set(4) show False by simp
    qed
    moreover have "b = p + 4 + run_of Word s (p + 4)"
      using set(2,3,6) by (intro class_stops [where ch = "CHR ''>''"]) (simp_all add: not_word_gt)
    ultimately show ?thesis using set by (simp add: element_position_def)
  qed
qed

lemma match_type_groups:
  assumes f: "field \<in> set (finditer PROTONUMBER_RE defs)"
  shows "(collection_at defs (type_position defs field) \<longrightarrow>
            m_caps field G_list
              = Some (element_position defs (type_position defs field),
                      element_position defs (type_position defs field)
                        + run_of Word defs (element_position defs (type_position defs field)))
            \<and> 0 < run_of Word defs (element_position defs (type_position defs field))
            \<and> m_caps field G_type = None)
       \<and> (\<not> collection_at defs (type_position defs field) \<longrightarrow>
            m_caps field G_type
              = Some (type_position defs field,
                      type_position defs field + run_of Word defs (type_position defs field))
            \<and> 0 < run_of Word defs (type_position defs field)
            \<and> m_caps field G_list = None)"
proof -
  from finditer_from_sound [of field PROTONUMBER_RE defs 0] f obtain i
    where m: "match_at PROTONUMBER_RE defs i = Some field"
    by (auto simp: finditer_def)
  from match_at_head [OF m] obtain rest
    where r: "run defs PROTONUMBER_RE (i, \<lambda>g. None) = (m_end field, m_caps field) # rest"
    by blast
  let ?x = "(m_end field, m_caps field)"
  from run_Seq_head_pair [OF r [unfolded PROTONUMBER_RE_def]] obtain p cp ys
    where pre: "(p, cp) \<in> set (run defs (Alt annotation (Alt class_head Bol)) (i, \<lambda>g. None))"
      and d: "run defs var_decl (p, cp) = ?x # ys"
    by blast
  have cp: "cp G_list = None" "cp G_type = None"
    using prefix_number [OF pre] by auto
  from var_decl_head [OF d] obtain n0 n1 a0 ys'
    where a0: "n1 + 1 < a0" "a0 \<le> n1 + 1 + run_of Space defs (n1 + 1)"
      and t: "run defs (Seq type_pattern optional_pattern) (a0, cp(G_name := Some (n0, n1))) = ?x # ys'"
    by blast
  let ?c0 = "cp(G_name := Some (n0, n1))"
  from type_optional_head [OF t] obtain y l zs
    where ty: "run defs type_pattern (a0, ?c0) = y # l"
      and op: "run defs optional_pattern y = ?x # zs"
    by blast
  obtain k c1 where y: "y = (k, c1)" by (cases y)
  have ymem: "(k, c1) \<in> set (run defs type_pattern (a0, ?c0))"
    using ty y by simp
  have xmem: "?x \<in> set (run defs optional_pattern (k, c1))"
    using op y by simp
  have c1_name: "c1 G_name = Some (n0, n1)"
    using run_frame [OF ymem, of G_name] by (simp add: type_pattern_def)
  have name: "m_caps field G_name = Some (n0, n1)"
    using run_frame [OF xmem, of G_name] c1_name by (simp add: optional_pattern_def)
  have pos: "a0 = n1 + 1 + run_of Space defs (n1 + 1)"
  proof (rule ccontr)
    assume "a0 \<noteq> n1 + 1 + run_of Space defs (n1 + 1)"
    with a0 have "a0 < n1 + 1 + run_of Space defs (n1 + 1)" by simp
    then have "in_class Space (defs ! a0)"
      using a0(1) by (intro run_of_class [of "n1 + 1"]) simp_all
    with type_start_is_word [OF ymem] word_not_space show False by auto
  qed
  have tp: "type_position defs field = a0"
    using name pos by (simp add: type_position_def)
  let ?LP = "Seq (Alt (Lit ''List'') (Lit ''Set''))
            (Seq (Lit ''<'') (Seq (Group G_list (Plus Word)) (Lit ''>'')))"
  let ?GT = "Group G_type (Plus Word)"
  have tsplit: "run defs type_pattern (a0, ?c0) = run defs ?LP (a0, ?c0) @ run defs ?GT (a0, ?c0)"
    by (simp add: type_pattern_def run.simps)
  have keep_list: "m_caps field G_list = c1 G_list"
    using run_frame [OF xmem, of G_list] by (simp add: optional_pattern_def)
  have keep_type: "m_caps field G_type = c1 G_type"
    using run_frame [OF xmem, of G_type] by (simp add: optional_pattern_def)
  show ?thesis
  proof (cases "collection_at defs a0")
    case True
    then have ne: "run defs ?LP (a0, ?c0) \<noteq> []"
      by (simp add: list_branch_nonempty)
    with tsplit ty have "y = hd (run defs ?LP (a0, ?c0))" by (cases "run defs ?LP (a0, ?c0)") auto
    with ne y have "(k, c1) \<in> set (run defs ?LP (a0, ?c0))" by (metis hd_in_set)
    from list_branch_span [OF this] cp keep_list keep_type True tp show ?thesis by simp
  next
    case False
    then have e: "run defs ?LP (a0, ?c0) = []"
      using list_branch_nonempty [of defs a0 ?c0] by blast
    with tsplit ty have g: "run defs ?GT (a0, ?c0) = y # l" by simp
    from type_group_head [OF g] y
    have c1: "c1 = ?c0(G_type := Some (a0, a0 + run_of Word defs a0))" by simp
    have "0 < run_of Word defs a0"
    proof (rule ccontr)
      assume "\<not> 0 < run_of Word defs a0"
      with g show False by (simp add: run.simps)
    qed
    with c1 cp keep_list keep_type False tp show ?thesis by simp
  qed
qed

lemma type_arg_of_match:
  assumes "field \<in> set (finditer PROTONUMBER_RE defs)"
  shows "(\<exists>a b e. m_caps field G_list = Some (a, b) \<and> collection_before defs a
              \<and> take 1 (drop b defs) = ''>''
              \<and> group_text defs field G_list = Some e \<and> group_text defs field G_type = None
              \<and> type_arg defs field = Some (spec_type_mapper e))
       \<or> (\<exists>t. group_text defs field G_type = Some t \<and> group_text defs field G_list = None
              \<and> type_arg defs field = Some (spec_type_mapper t))"
proof -
  note sh = match_shape [OF field_shape [OF assms, THEN conjunct2] field_shape [OF assms, THEN conjunct1]]
  from sh consider
    (list) a b where "m_caps field G_list = Some (a, b)" "m_caps field G_type = None" "a < b" "b \<le> length defs"
      "collection_before defs a" "take 1 (drop b defs) = ''>''"
  | (type) a b where "m_caps field G_type = Some (a, b)" "m_caps field G_list = None" "a < b" "b \<le> length defs"
    by blast
  then show ?thesis
  proof cases
    case list
    let ?e = "take (b - a) (drop a defs)"
    from group_text_Some [OF list(1,3,4)] have e: "group_text defs field G_list = Some ?e" "?e \<noteq> []"
      by simp_all
    moreover have "group_text defs field G_type = None"
      using list(2) by (rule group_text_None)
    ultimately have "type_arg defs field = Some (spec_type_mapper ?e)"
      using dict_get_mapper [of ?e]
      by (simp add: type_arg_def py_or_def truthy_def dict_get_def)
    with e list(1,5,6) \<open>group_text defs field G_type = None\<close> show ?thesis by blast
  next
    case type
    let ?t = "take (b - a) (drop a defs)"
    from group_text_Some [OF type(1,3,4)] have t: "group_text defs field G_type = Some ?t" "?t \<noteq> []"
      by simp_all
    moreover have n: "group_text defs field G_list = None"
      using type(2) by (rule group_text_None)
    ultimately have "type_arg defs field = Some (spec_type_mapper ?t)"
      using dict_get_mapper [of ?t]
      by (simp add: type_arg_def py_or_def truthy_def dict_get_def split: option.splits)
    with t n show ?thesis by blast
  qed
qed

lemma type_arg_of_shape:
  assumes f: "field \<in> set (finditer PROTONUMBER_RE defs)"
  shows "(collection_at defs (type_position defs field) \<longrightarrow>
            group_text defs field G_list
              = Some (identifier_at defs (element_position defs (type_position defs field)))
            \<and> group_text defs field G_type = None
            \<and> type_arg defs field
              = Some (spec_type_mapper
                        (identifier_at defs (element_position defs (type_position defs field)))))
       \<and> (\<not> collection_at defs (type_position defs field) \<longrightarrow>
            group_text defs field G_type = Some (identifier_at defs (type_position defs field))
            \<and> group_text defs field G_list = None
            \<and> type_arg defs field
              = Some (spec_type_mapper (identifier_at defs (type_position defs field))))"
proof (cases "collection_at defs (type_position defs field)")
  case True
  let ?a = "element_position defs (type_position defs field)"
  from match_type_groups [OF f] True
  have l: "m_caps field G_list = Some (?a, ?a + run_of Word defs ?a)"
    and n: "0 < run_of Word defs ?a" and ty: "m_caps field G_type = None" by simp_all
  have gl: "group_text defs field G_list = Some (identifier_at defs ?a)"
    using l by (rule group_text_span)
  have gt: "group_text defs field G_type = None"
    using ty by (rule group_text_None)
  have "type_arg defs field = Some (spec_type_mapper (identifier_at defs ?a))"
    using gl gt identifier_nonempty [OF n] dict_get_mapper [of "identifier_at defs ?a"]
    by (simp add: type_arg_def py_or_def truthy_def dict_get_def)
  with gl gt True show ?thesis by simp
next
  case False
  let ?p = "type_position defs field"
  from match_type_groups [OF f] False
  have ty: "m_caps field G_type = Some (?p, ?p + run_of Word defs ?p)"
    and n: "0 < run_of Word defs ?p" and l: "m_caps field G_list = None" by simp_all
  have gt: "group_text defs field G_type = Some (identifier_at defs ?p)"
    using ty by (rule group_text_span)
  have gl: "group_text defs field G_list = None"
    using l by (rule group_text_None)
  have "type_arg defs field = Some (spec_type_mapper (identifier_at defs ?p))"
    using gl gt identifier_nonempty [OF n] dict_get_mapper [of "identifier_at defs ?p"]
    by (simp add: type_arg_def py_or_def truthy_def dict_get_def split: option.splits)
  with gl gt False show ?thesis by simp
qed

text \<open>
  C4. Looking a type name up in \<open>DATA_TYPES\<close> with the name itself as the default is
  the Type Mapper of the specification: \<^verbatim>\<open>String\<close>, \<^verbatim>\<open>Int\<close>, \<^verbatim>\<open>Long\<close>,
  \<^verbatim>\<open>Boolean\<close>, \<^verbatim>\<open>Float\<close> and \<^verbatim>\<open>PreferenceValue\<close> give \<^verbatim>\<open>string\<close>,
  \<^verbatim>\<open>int32\<close>, \<^verbatim>\<open>int64\<close>, \<^verbatim>\<open>bool\<close>, \<^verbatim>\<open>float\<close> and \<^verbatim>\<open>bytes\<close>, any other
  name gives itself, and there is no error result. For every recognized field: when the
  declared type is a collection (\<^verbatim>\<open>List<T>\<close> or \<^verbatim>\<open>Set<T>\<close>), group \<^verbatim>\<open>list\<close> is
  the element type \<^verbatim>\<open>T\<close>, group \<^verbatim>\<open>type\<close> takes no part, and the type argument
  is the mapper applied to \<^verbatim>\<open>T\<close>, not to the outer collection type; when the declared
  type is no collection, the type argument is the mapper applied to the declared type
  identifier.
\<close>

theorem type_arg_by_mapper:
  "dict_get DATA_TYPES (Some t) (Some t) = Some (spec_type_mapper t)
   \<and> (field \<in> set (finditer PROTONUMBER_RE defs) \<longrightarrow>
        (collection_at defs (type_position defs field) \<longrightarrow>
            group_text defs field G_list
              = Some (identifier_at defs (element_position defs (type_position defs field)))
            \<and> group_text defs field G_type = None
            \<and> type_arg defs field
              = Some (spec_type_mapper
                        (identifier_at defs (element_position defs (type_position defs field)))))
        \<and> (\<not> collection_at defs (type_position defs field) \<longrightarrow>
            group_text defs field G_type = Some (identifier_at defs (type_position defs field))
            \<and> group_text defs field G_list = None
            \<and> type_arg defs field
              = Some (spec_type_mapper (identifier_at defs (type_position defs field))))
        \<and> ((\<exists>a b e. m_caps field G_list = Some (a, b) \<and> collection_before defs a
              \<and> take 1 (drop b defs) = ''>''
              \<and> group_text defs field G_list = Some e \<and> group_text defs field G_type = None
              \<and> type_arg defs field = Some (spec_type_mapper e))
            \<or> (\<exists>t. group_text defs field G_type = Some t \<and> group_text defs field G_list = None
              \<and> type_arg defs field = Some (spec_type_mapper t))))"
  using dict_get_mapper [of t] type_arg_of_shape [of field defs] type_arg_of_match [of field defs]
  by blast

theorem type_arg_by_mapper_witness:
  "collection_at ''val ids: Set<Long>''
       (type_position ''val ids: Set<Long>'' (hd (finditer PROTONUMBER_RE ''val ids: Set<Long>'')))
   \<and> type_arg ''val ids: Set<Long>'' (hd (finditer PROTONUMBER_RE ''val ids: Set<Long>''))
       = Some ''int64''
   \<and> collection_at ''val tags: List<String>?''
       (type_position ''val tags: List<String>?'' (hd (finditer PROTONUMBER_RE ''val tags: List<String>?'')))
   \<and> type_arg ''val tags: List<String>?'' (hd (finditer PROTONUMBER_RE ''val tags: List<String>?''))
       = Some ''string''
   \<and> \<not> collection_at ''val manga: BackupManga''
       (type_position ''val manga: BackupManga'' (hd (finditer PROTONUMBER_RE ''val manga: BackupManga'')))
   \<and> type_arg ''val manga: BackupManga'' (hd (finditer PROTONUMBER_RE ''val manga: BackupManga''))
       = Some ''BackupManga''"
proof -
  let ?d1 = "''val ids: Set<Long>''" and ?d2 = "''val manga: BackupManga''"
    and ?d3 = "''val tags: List<String>?''"
  let ?f1 = "hd (finditer PROTONUMBER_RE ?d1)" and ?f2 = "hd (finditer PROTONUMBER_RE ?d2)"
    and ?f3 = "hd (finditer PROTONUMBER_RE ?d3)"
  have ne: "finditer PROTONUMBER_RE ?d1 \<noteq> []" "finditer PROTONUMBER_RE ?d2 \<noteq> []"
    "finditer PROTONUMBER_RE ?d3 \<noteq> []" by code_simp+
  have c1: "collection_at ?d1 (type_position ?d1 ?f1)" by code_simp
  have e1: "identifier_at ?d1 (element_position ?d1 (type_position ?d1 ?f1)) = ''Long''" by code_simp
  have c3: "collection_at ?d3 (type_position ?d3 ?f3)" by code_simp
  have e3: "identifier_at ?d3 (element_position ?d3 (type_position ?d3 ?f3)) = ''String''" by code_simp
  have c2: "\<not> collection_at ?d2 (type_position ?d2 ?f2)" by code_simp
  have e2: "identifier_at ?d2 (type_position ?d2 ?f2) = ''BackupManga''" by code_simp
  from type_arg_by_mapper [of "''Long''" ?f1 ?d1] ne c1 e1
  have "type_arg ?d1 ?f1 = Some ''int64''" by (simp add: spec_type_mapper_def)
  moreover from type_arg_by_mapper [of "''String''" ?f3 ?d3] ne c3 e3
  have "type_arg ?d3 ?f3 = Some ''string''" by (simp add: spec_type_mapper_def)
  moreover from type_arg_by_mapper [of "''BackupManga''" ?f2 ?d2] ne c2 e2
  have "type_arg ?d2 ?f2 = Some ''BackupManga''" by (simp add: spec_type_mapper_def)
  ultimately show ?thesis using c1 c2 c3 by simp
qed

subsection \<open>Commented-out annotations\<close>

text \<open>
  C8. Whenever a recognized field has a tag number, the number stands in an annotation
  \<^verbatim>\<open>@ProtoNumber(\<close> that is preceded on its line by white space only, so the
  annotation is not behind a line comment marker. Hence, in a class body where every
  occurrence of the annotation is commented out, no recognized field has a tag number from
  an annotation.
\<close>

theorem annotation_not_commented:
  "(field \<in> set (finditer PROTONUMBER_RE defs) \<longrightarrow> m_caps field G_number = Some (a, b) \<longrightarrow>
      13 \<le> a \<and> take 13 (drop (a - 13) defs) = ''@ProtoNumber(''
      \<and> list_all is_space (line_before defs (a - 13)) \<and> \<not> commented_out defs (a - 13))
   \<and> (list_all (commented_out defs) (annotations defs) \<longrightarrow>
      list_all (\<lambda>field. group_text defs field G_number = None) (finditer PROTONUMBER_RE defs))"
proof -
  have first: "13 \<le> a \<and> take 13 (drop (a - 13) defs) = ''@ProtoNumber(''
      \<and> list_all is_space (line_before defs (a - 13)) \<and> \<not> commented_out defs (a - 13)
      \<and> a - 13 < length defs"
    if f: "field \<in> set (finditer PROTONUMBER_RE defs)" and n: "m_caps field G_number = Some (a, b)"
    for field a b
  proof -
    note sh = match_shape [OF field_shape [OF f, THEN conjunct2] field_shape [OF f, THEN conjunct1]]
    let ?i = "m_start field"
    from sh n obtain k where bol: "?i = 0 \<or> take 1 (drop (?i - 1) defs) = [CHR 0x0A]"
      and k: "k \<le> run_of Space defs ?i" and lit: "take 13 (drop (?i + k) defs) = ''@ProtoNumber(''"
      and a: "a = ?i + k + 13" and b: "a < b" "b \<le> length defs"
      by auto
    have "list_all is_space (line_before defs (?i + k))"
      using bol k by (rule line_before_spaces)
    with a lit b show ?thesis
      by (simp add: commented_out_def spaces_no_marker)
  qed
  have second: "list_all (\<lambda>field. group_text defs field G_number = None) (finditer PROTONUMBER_RE defs)"
    if all: "list_all (commented_out defs) (annotations defs)"
  proof -
    have "m_caps field G_number = None" if f: "field \<in> set (finditer PROTONUMBER_RE defs)" for field
    proof (cases "m_caps field G_number")
      case None
      then show ?thesis .
    next
      case (Some ab)
      then obtain a b where n: "m_caps field G_number = Some (a, b)" by (cases ab) simp
      from first [OF f n] have "a - 13 \<in> set (annotations defs)" and "\<not> commented_out defs (a - 13)"
        by (simp_all add: annotations_def)
      with all show ?thesis by (auto simp: list_all_iff)
    qed
    then show ?thesis by (simp add: list_all_iff group_text_None)
  qed
  from first second show ?thesis by blast
qed

theorem annotation_not_commented_witness:
  "m_caps (finditer PROTONUMBER_RE body_with_comment ! 1) G_number = Some (103, 106)
   \<and> take 13 (drop 90 body_with_comment) = ''@ProtoNumber(''
   \<and> \<not> commented_out body_with_comment 90
   \<and> commented_out body_with_comment 41
   \<and> list_all (commented_out body_only_commented) (annotations body_only_commented)
   \<and> list_all (\<lambda>field. group_text body_only_commented field G_number = None)
         (finditer PROTONUMBER_RE body_only_commented)"
proof -
  let ?f = "finditer PROTONUMBER_RE body_with_comment ! 1"
  have len: "length (finditer PROTONUMBER_RE body_with_comment) = 2" by code_simp
  then have mem: "?f \<in> set (finditer PROTONUMBER_RE body_with_comment)" by simp
  have n: "m_caps ?f G_number = Some (103, 106)" by code_simp
  have c: "commented_out body_with_comment 41" by code_simp
  have o: "list_all (commented_out body_only_commented) (annotations body_only_commented)"
    by code_simp
  from annotation_not_commented [of ?f body_with_comment 103 106] mem n
  have "take 13 (drop 90 body_with_comment) = ''@ProtoNumber(''"
    and "\<not> commented_out body_with_comment 90" by simp_all
  moreover from annotation_not_commented [of ?f body_only_commented 103 106] o
  have "list_all (\<lambda>field. group_text body_only_commented field G_number = None)
         (finditer PROTONUMBER_RE body_only_commented)" by simp
  ultimately show ?thesis using n c o by simp
qed

end
